theory Spec2Isabelle
  imports Main
begin

section \<open>Data model\<close>

text \<open>
  The views of \<^verbatim>\<open>pretalx/orga/views/event.py\<close> work on three tables (users, event
  permissions, activity log), on the message store of the request and on the mail
  system.  A row of a table is a record; a primary key is a natural number, and an
  object that has not been saved yet has the primary key \<open>None\<close>.  Strings are the
  source's strings with every character a code point below 256.
\<close>

record user =
  user_pk :: nat
  nick :: string
  email :: string

text \<open>\<^verbatim>\<open>EventPermission\<close>: the fields the views read and write.\<close>

record permission =
  pk :: "nat option"
  event :: nat
  user :: "nat option"
  is_orga :: bool
  is_reviewer :: bool
  review_override_count :: nat
  invitation_email :: "string option"
  invitation_token :: "string option"

text \<open>
  A mail object as \<^verbatim>\<open>permission.send_invite_email()\<close> returns it.  The
  method is not part of the view module; the mail is kept as the permission it was made
  from, in the state the permission had at the call.
\<close>

datatype mail = Invite_mail permission

datatype level = SUCCESS | WARNING | ERROR | INFO

text \<open>
  A message text is either an entry of \<^verbatim>\<open>pretalx.common.phrases\<close>, kept by its
  name, or a string built in the view.
\<close>

datatype message_text = Phrase string | Text string

datatype url =
  Team_settings nat
  | Mail_settings nat
  | Event_settings "nat option"
  | Event_base nat
  | Orga_base nat
  | User_view

datatype response = Redirect url | Form_invalid

datatype exn =
  PermissionDenied
  | Http404
  | MultipleObjectsReturned
  | AssertionError
  | AttributeError
  | Mail_exception string

record state =
  permissions :: "permission list"
  next_pk :: nat
  users :: "user list"
  action_log :: "(string \<times> nat option) list"
  messages :: "(level \<times> message_text) list"
  sent :: "mail list"
  logged_in :: "nat option"

text \<open>
  The request of a team-settings POST: the event of the URL and the primary key of
  the requesting user.
\<close>

record request =
  req_event :: nat
  req_user :: nat

text \<open>
  The bound inline formset after \<^verbatim>\<open>is_valid()\<close> and
  \<^verbatim>\<open>save(commit=False)\<close>: the framework leaves the instances of the added, the
  changed and the deleted forms in three lists and writes nothing to the database.
\<close>

record formset =
  is_valid :: bool
  new_objects :: "permission list"
  changed_objects :: "permission list"
  deleted_objects :: "permission list"

text \<open>
  The parts of the mail system that can fail: building the invitation mail and sending
  a mail; \<open>Some e\<close> is the text of the exception raised.
\<close>

record env =
  invite_raises :: "permission \<Rightarrow> string option"
  send_raises :: "mail \<Rightarrow> string option"

section \<open>Database operations\<close>

text \<open>
  \<^verbatim>\<open>QuerySet.first()\<close> on a queryset without an ordering orders by primary key.
\<close>

definition qs_first :: "('a \<Rightarrow> nat) \<Rightarrow> 'a list \<Rightarrow> 'a option" where
  "qs_first key xs = (case xs of [] \<Rightarrow> None | _ # _ \<Rightarrow> Some (arg_min_list key xs))"

definition pk_key :: "permission \<Rightarrow> nat" where
  "pk_key p = (case pk p of None \<Rightarrow> 0 | Some i \<Rightarrow> i)"

text \<open>
  \<^verbatim>\<open>Model.save()\<close>: an object without primary key is inserted under the next key of
  the sequence, which the object receives; an object with a primary key replaces the
  row of that key, and is inserted under it when there is no such row.
\<close>

definition save_permission :: "permission \<Rightarrow> state \<Rightarrow> permission \<times> state" where
  "save_permission p s =
     (case pk p of
        None \<Rightarrow>
          (let p' = p\<lparr>pk := Some (next_pk s)\<rparr>
           in (p', s\<lparr>permissions := permissions s @ [p'], next_pk := Suc (next_pk s)\<rparr>))
      | Some i \<Rightarrow>
          (if \<exists>r \<in> set (permissions s). pk r = Some i
           then (p, s\<lparr>permissions := map (\<lambda>r. if pk r = Some i then p else r) (permissions s)\<rparr>)
           else (p, s\<lparr>permissions := permissions s @ [p]\<rparr>)))"

text \<open>
  \<^verbatim>\<open>Model.delete()\<close>: the row of the object's primary key goes; an object without
  primary key fails the assertion of the framework.
\<close>

definition delete_permission :: "permission \<Rightarrow> state \<Rightarrow> (exn \<times> state) + state" where
  "delete_permission p s =
     (case pk p of
        None \<Rightarrow> Inl (AssertionError, s)
      | Some i \<Rightarrow> Inr (s\<lparr>permissions := filter (\<lambda>r. pk r \<noteq> Some i) (permissions s)\<rparr>))"

text \<open>
  \<^verbatim>\<open>transaction.atomic\<close>: when the body raises, the tables are as before the call;
  what left the database (messages of the request, mails already sent) stays.
\<close>

definition atomic ::
  "(state \<Rightarrow> (exn \<times> state) + ('a \<times> state)) \<Rightarrow> state \<Rightarrow> (exn \<times> state) + ('a \<times> state)" where
  "atomic body s =
     (case body s of
        Inl (e, s') \<Rightarrow> Inl (e, s\<lparr>messages := messages s', sent := sent s'\<rparr>)
      | Inr r \<Rightarrow> Inr r)"

section \<open>Team settings: \<^verbatim>\<open>EventTeam\<close>\<close>

text \<open>\<^verbatim>\<open>if x:\<close> on an optional string: \<^verbatim>\<open>None\<close> and the empty string are false.\<close>

definition truthy :: "string option \<Rightarrow> bool" where
  "truthy x = (case x of None \<Rightarrow> False | Some t \<Rightarrow> t \<noteq> [])"

text \<open>\<^verbatim>\<open>'{email}'.format(email=x)\<close>: \<^verbatim>\<open>None\<close> is written as the word None.\<close>

definition format_str :: "string option \<Rightarrow> string" where
  "format_str x = (case x of None \<Rightarrow> ''None'' | Some t \<Rightarrow> t)"

definition find_user :: "user list \<Rightarrow> string \<Rightarrow> user option" where
  "find_user us e =
     (case qs_first user_pk (filter (\<lambda>u. nick u = e) us) of
        Some u \<Rightarrow> Some u
      | None \<Rightarrow> qs_first user_pk (filter (\<lambda>u. email u = e) us))"

definition count_orga_permissions :: "permission list \<Rightarrow> int" where
  "count_orga_permissions ps = int (length (filter is_orga ps))"

definition has_remaining_team :: "formset \<Rightarrow> bool" where
  "has_remaining_team fs \<longleftrightarrow>
     count_orga_permissions (new_objects fs)
     + count_orga_permissions (changed_objects fs)
     - count_orga_permissions (deleted_objects fs) > 0"

text \<open>
  \<^verbatim>\<open>formset.save(commit=False)\<close> returns the instances of the changed forms followed
  by those of the added forms.
\<close>

definition formset_save :: "formset \<Rightarrow> permission list" where
  "formset_save fs = changed_objects fs @ new_objects fs"

definition send_invite_email :: "env \<Rightarrow> permission \<Rightarrow> state \<Rightarrow> (exn \<times> state) + mail" where
  "send_invite_email en p s =
     (case invite_raises en p of
        Some e \<Rightarrow> Inl (Mail_exception e, s)
      | None \<Rightarrow> Inr (Invite_mail p))"

definition invited_text :: "string option \<Rightarrow> message_text" where
  "invited_text e =
     Text (''<'' @ format_str e @
       ''> has been invited to your team - more team members help distribute the workload, so ... yay!'')"

fun delete_loop :: "permission list \<Rightarrow> state \<Rightarrow> (exn \<times> state) + state" where
  "delete_loop [] s = Inr s"
| "delete_loop (p # ps) s =
     (case delete_permission p s of
        Inl e \<Rightarrow> Inl e
      | Inr s' \<Rightarrow> delete_loop ps s')"

text \<open>
  Lines 215 to 220: a permission whose invitation address is the nick or the e-mail
  address of a user is bound to that user and loses address and token.
\<close>

definition attach_user :: "user list \<Rightarrow> permission \<Rightarrow> permission" where
  "attach_user us p =
     (case find_user us (the (invitation_email p)) of
        Some u \<Rightarrow> p\<lparr>user := Some (user_pk u), invitation_email := None,
                     invitation_token := None\<rparr>
      | None \<Rightarrow> p)"

text \<open>The body of the loop over \<^verbatim>\<open>permissions\<close> (lines 214 to 228).\<close>

definition invite_step ::
  "env \<Rightarrow> request \<Rightarrow> permission \<Rightarrow> mail list \<Rightarrow> state
     \<Rightarrow> (exn \<times> state) + (permission \<times> mail list \<times> state)" where
  "invite_step en rq p mails s =
     (if truthy (invitation_email p) then
        (let p1 = attach_user (users s) p
         in case send_invite_email en p1 s of
              Inl e \<Rightarrow> Inl e
            | Inr m \<Rightarrow>
                (let s1 = s\<lparr>action_log := action_log s @ [(''pretalx.invite.orga.send'', Some (req_user rq))],
                            messages := messages s @ [(SUCCESS, invited_text (invitation_email p1))]\<rparr>;
                     (p2, s2) = save_permission p1 s1
                 in Inr (p2, mails @ [m], s2)))
      else
        (let (p2, s2) = save_permission p s in Inr (p2, mails, s2)))"

fun invite_loop ::
  "env \<Rightarrow> request \<Rightarrow> permission list \<Rightarrow> mail list \<Rightarrow> state
     \<Rightarrow> (exn \<times> state) + (permission list \<times> mail list \<times> state)" where
  "invite_loop en rq [] mails s = Inr ([], mails, s)"
| "invite_loop en rq (p # ps) mails s =
     (case invite_step en rq p mails s of
        Inl e \<Rightarrow> Inl e
      | Inr (p', mails', s') \<Rightarrow>
          (case invite_loop en rq ps mails' s' of
             Inl e \<Rightarrow> Inl e
           | Inr (ps', mails'', s'') \<Rightarrow> Inr (p' # ps', mails'', s'')))"

text \<open>
  One turn of the loop of lines 230 to 235: the queryset
  \<^verbatim>\<open>filter(event=..., user=...).exclude(id=...)\<close> is deleted.
\<close>

definition dedup_step :: "permission \<Rightarrow> permission list \<Rightarrow> permission list" where
  "dedup_step p tbl =
     (case user p of
        None \<Rightarrow> tbl
      | Some u \<Rightarrow> filter (\<lambda>r. \<not> (event r = event p \<and> user r = Some u \<and> pk r \<noteq> pk p)) tbl)"

fun dedup_loop :: "permission list \<Rightarrow> permission list \<Rightarrow> permission list" where
  "dedup_loop [] tbl = tbl"
| "dedup_loop (p # ps) tbl = dedup_loop ps (dedup_step p tbl)"

fun send_loop :: "env \<Rightarrow> mail list \<Rightarrow> state \<Rightarrow> (exn \<times> state) + state" where
  "send_loop en [] s = Inr s"
| "send_loop en (m # ms) s =
     (case send_raises en m of
        Some e \<Rightarrow> Inl (Mail_exception e, s)
      | None \<Rightarrow> send_loop en ms (s\<lparr>sent := sent s @ [m]\<rparr>))"

definition lonely_text :: message_text where
  "lonely_text =
     Text ''That would be a pretty lonely event. You can't remove the last remaining team member.''"

definition EventTeam_post_body ::
  "env \<Rightarrow> request \<Rightarrow> formset \<Rightarrow> state \<Rightarrow> (exn \<times> state) + (response \<times> state)" where
  "EventTeam_post_body en rq fs s =
     (if \<not> is_valid fs then
        Inr (Redirect (Team_settings (req_event rq)),
             s\<lparr>messages := messages s @ [(ERROR, Phrase ''base.error_saving_changes'')]\<rparr>)
      else
        (let perms = formset_save fs in
         if \<not> has_remaining_team fs then
           Inr (Redirect (Team_settings (req_event rq)),
                s\<lparr>messages := messages s @ [(ERROR, lonely_text)]\<rparr>)
         else
           (case delete_loop (deleted_objects fs) s of
              Inl e \<Rightarrow> Inl e
            | Inr s1 \<Rightarrow>
                (case invite_loop en rq perms [] s1 of
                   Inl e \<Rightarrow> Inl e
                 | Inr (perms', mails, s2) \<Rightarrow>
                     (let s3 = s2\<lparr>permissions := dedup_loop perms' (permissions s2)\<rparr>
                      in case send_loop en mails s3 of
                           Inl e \<Rightarrow> Inl e
                         | Inr s4 \<Rightarrow> Inr (Redirect (Team_settings (req_event rq)), s4))))))"

definition EventTeam_post ::
  "env \<Rightarrow> request \<Rightarrow> formset \<Rightarrow> state \<Rightarrow> (exn \<times> state) + (response \<times> state)" where
  "EventTeam_post en rq fs = atomic (EventTeam_post_body en rq fs)"

section \<open>Accepting an invitation: \<^verbatim>\<open>InvitationView\<close>\<close>

text \<open>
  The lookup \<^verbatim>\<open>invitation_token__iexact\<close> compares without regard to the case of
  the letters A to Z.
\<close>

definition lower_char :: "char \<Rightarrow> char" where
  "lower_char c =
     (let n = (of_char c :: nat) in if 65 \<le> n \<and> n \<le> 90 then char_of (n + 32) else c)"

definition iexact :: "string option \<Rightarrow> string \<Rightarrow> bool" where
  "iexact t code =
     (case t of None \<Rightarrow> False | Some x \<Rightarrow> map lower_char x = map lower_char code)"

text \<open>
  \<^verbatim>\<open>get_object_or_404\<close>: no matching row is the error 404; the underlying
  \<^verbatim>\<open>get()\<close> refuses more than one matching row.
\<close>

definition InvitationView_object :: "permission list \<Rightarrow> string \<Rightarrow> exn + permission" where
  "InvitationView_object tbl code =
     (case filter (\<lambda>r. iexact (invitation_token r) code \<and> user r = None) tbl of
        [] \<Rightarrow> Inl Http404
      | [r] \<Rightarrow> Inr r
      | _ # _ # _ \<Rightarrow> Inl MultipleObjectsReturned)"

text \<open>
  The validated \<^verbatim>\<open>UserForm\<close>.  The form class is not part of the view module:
  its \<^verbatim>\<open>save()\<close> logs a user in or registers one, which is kept as a function on
  the user table, and \<open>user_id\<close> is \<^verbatim>\<open>cleaned_data.get('user_id')\<close> after it.
\<close>

record user_form =
  save_users :: "user list \<Rightarrow> user list"
  user_id :: "nat option"

definition auth_problem_text :: message_text where
  "auth_problem_text =
     Text ''There was a problem with your authentication. Please contact the organiser for further help.''"

text \<open>Lines 273 to 276: the flags of the invitation are carried over.\<close>

definition merge_flags :: "permission \<Rightarrow> permission \<Rightarrow> permission" where
  "merge_flags permission perm =
     (let q1 = (if is_orga permission then perm\<lparr>is_orga := True\<rparr> else perm)
      in if is_reviewer permission then q1\<lparr>is_reviewer := True\<rparr> else q1)"

text \<open>Lines 281 to 287: the surviving permission is bound to the user and saved.\<close>

definition bind_user :: "nat \<Rightarrow> permission \<Rightarrow> user \<Rightarrow> state \<Rightarrow> response \<times> state" where
  "bind_user ev p usr s =
     (let (p', s1) = save_permission (p\<lparr>user := Some (user_pk usr)\<rparr>) s;
          s2 = s1\<lparr>action_log := action_log s1 @ [(''pretalx.invite.orga.accept'', Some (user_pk usr))],
                  messages := messages s1 @ [(INFO, Text ''You are now part of the event team!'')],
                  logged_in := Some (user_pk usr)\<rparr>
      in (Redirect (Orga_base ev), s2))"

definition InvitationView_form_valid ::
  "request \<Rightarrow> string \<Rightarrow> user_form \<Rightarrow> state \<Rightarrow> (exn \<times> state) + (response \<times> state)" where
  "InvitationView_form_valid rq code form s =
     (let s0 = s\<lparr>users := save_users form (users s)\<rparr> in
      case InvitationView_object (permissions s0) code of
        Inl e \<Rightarrow> Inl (e, s0)
      | Inr permission \<Rightarrow>
          (case qs_first user_pk (filter (\<lambda>u. Some (user_pk u) = user_id form) (users s0)) of
             None \<Rightarrow>
               Inr (Redirect (Event_base (req_event rq)),
                    s0\<lparr>messages := messages s0 @ [(ERROR, auth_problem_text)]\<rparr>)
           | Some usr \<Rightarrow>
               (let perm = qs_first pk_key
                      (filter (\<lambda>r. user r = Some (user_pk usr) \<and> event r = event permission
                                   \<and> pk r \<noteq> pk permission) (permissions s0));
                    ev = event permission
                in case perm of
                     Some q \<Rightarrow>
                       (let (q3, s1) = save_permission (merge_flags permission q) s0
                        in case delete_permission permission s1 of
                             Inl e \<Rightarrow> Inl e
                           | Inr s2 \<Rightarrow> Inr (bind_user ev q3 usr s2))
                   | None \<Rightarrow> Inr (bind_user ev permission usr s0))))"

section \<open>Event settings: \<^verbatim>\<open>EventDetail\<close>\<close>

datatype action = Create | Edit | View

text \<open>
  What the view reads of the request: whether the URL names an event, the two flags
  of the user, and the answer of
  \<^verbatim>\<open>request.user.has_perm('orga.change_settings', self.object)\<close>.
\<close>

record detail_request =
  kwargs_event :: "string option"
  is_anonymous :: bool
  is_administrator :: bool
  has_perm :: bool
  detail_user :: "nat option"

definition EventDetail_action :: "detail_request \<Rightarrow> action" where
  "EventDetail_action rq =
     (if kwargs_event rq = None then Create
      else if has_perm rq then Edit
      else View)"

text \<open>
  \<^verbatim>\<open>dispatch\<close>: the handler of the parent class is the parameter \<open>super_dispatch\<close>.
\<close>

definition EventDetail_dispatch ::
  "('s \<Rightarrow> (exn \<times> 's) + ('r \<times> 's)) \<Rightarrow> detail_request \<Rightarrow> 's \<Rightarrow> (exn \<times> 's) + ('r \<times> 's)" where
  "EventDetail_dispatch super_dispatch rq s =
     (if EventDetail_action rq = Create then
        (if \<not> is_anonymous rq \<and> \<not> is_administrator rq then Inl (PermissionDenied, s)
         else super_dispatch s)
      else
        (if \<not> has_perm rq then Inl (PermissionDenied, s)
         else super_dispatch s))"

record event_row =
  event_pk :: "nat option"
  slug :: string

record event_form =
  form_is_valid :: bool
  form_instance :: event_row

record settings_form =
  sform_is_valid :: bool
  sform_data :: "(string \<times> string) list"

text \<open>
  What the view does to its collaborators, in the order of the calls.
\<close>

datatype detail_effect =
  Event_saved event_row
  | Settings_saved "(string \<times> string) list"
  | Message level message_text
  | Log_action string "nat option"
  | Permission_created "nat option" "nat option" bool
  | Regenerate_css "nat option"

record detail_state =
  events :: "event_row list"
  next_event_pk :: nat
  effects :: "detail_effect list"

text \<open>\<^verbatim>\<open>bool(pk)\<close>: \<^verbatim>\<open>None\<close> and 0 are false.\<close>

definition bool_pk :: "nat option \<Rightarrow> bool" where
  "bool_pk k = (case k of None \<Rightarrow> False | Some n \<Rightarrow> n \<noteq> 0)"

text \<open>
  \<^verbatim>\<open>super().form_valid(form)\<close> is the framework's
  \<^verbatim>\<open>ModelFormMixin.form_valid\<close>: the instance of the form is saved (and receives its
  primary key when it had none) and the answer is the redirect to the success URL.
\<close>

definition save_event :: "event_row \<Rightarrow> detail_state \<Rightarrow> event_row \<times> detail_state" where
  "save_event e s =
     (case event_pk e of
        None \<Rightarrow>
          (let e' = e\<lparr>event_pk := Some (next_event_pk s)\<rparr>
           in (e', s\<lparr>events := events s @ [e'], next_event_pk := Suc (next_event_pk s),
                     effects := effects s @ [Event_saved e']\<rparr>))
      | Some i \<Rightarrow>
          (if \<exists>r \<in> set (events s). event_pk r = Some i
           then (e, s\<lparr>events := map (\<lambda>r. if event_pk r = Some i then e else r) (events s),
                       effects := effects s @ [Event_saved e]\<rparr>)
           else (e, s\<lparr>events := events s @ [e], effects := effects s @ [Event_saved e]\<rparr>)))"

definition new_event_text :: message_text where
  "new_event_text =
     Text ''Yay, a new event! Check these settings and configure a CfP and you're good to go!''"

definition EventDetail_form_valid ::
  "detail_request \<Rightarrow> settings_form option \<Rightarrow> event_form \<Rightarrow> detail_state
     \<Rightarrow> (exn \<times> detail_state) + (response \<times> detail_state)" where
  "EventDetail_form_valid rq sform form s =
     (let new_event = \<not> bool_pk (event_pk (form_instance form)) in
      if \<not> new_event \<and> sform = None then Inl (AttributeError, s)
      else if \<not> new_event \<and> \<not> sform_is_valid (the sform) then Inr (Form_invalid, s)
      else
        (let (inst, s1) = save_event (form_instance form) s;
             ret = Redirect (Event_settings (event_pk inst))
         in if new_event then
              Inr (ret, s1\<lparr>effects := effects s1 @
                     [Message SUCCESS new_event_text,
                      Log_action ''pretalx.event.create'' (detail_user rq),
                      Permission_created (event_pk inst) (detail_user rq) True,
                      Regenerate_css (event_pk inst)]\<rparr>)
            else
              Inr (ret, s1\<lparr>effects := effects s1 @
                     [Settings_saved (sform_data (the sform)),
                      Log_action ''pretalx.event.update'' (detail_user rq),
                      Message SUCCESS (Text ''The event settings have been saved.''),
                      Regenerate_css (event_pk inst)]\<rparr>)))"

text \<open>
  The framework's \<^verbatim>\<open>ProcessFormView.post\<close>: \<^verbatim>\<open>form_valid\<close> runs for a form
  that validates, \<^verbatim>\<open>form_invalid\<close> otherwise.
\<close>

definition EventDetail_post ::
  "detail_request \<Rightarrow> settings_form option \<Rightarrow> event_form \<Rightarrow> detail_state
     \<Rightarrow> (exn \<times> detail_state) + (response \<times> detail_state)" where
  "EventDetail_post rq sform form s =
     (if form_is_valid form then EventDetail_form_valid rq sform form s
      else Inr (Form_invalid, s))"

section \<open>Mail settings: \<^verbatim>\<open>EventMailSettings\<close>\<close>

text \<open>
  \<^verbatim>\<open>str.strip()\<close> removes the white space at both ends; below 256 the white space
  characters are 9 to 13, 28 to 32, 133 and 160.
\<close>

definition isspace :: "char \<Rightarrow> bool" where
  "isspace c =
     (let n = (of_char c :: nat)
      in (9 \<le> n \<and> n \<le> 13) \<or> (28 \<le> n \<and> n \<le> 32) \<or> n = 133 \<or> n = 160)"

definition strip :: "string \<Rightarrow> string" where
  "strip t = rev (dropWhile isspace (rev (dropWhile isspace t)))"

text \<open>\<^verbatim>\<open>POST.get(key, default)\<close>.\<close>

definition post_get :: "(string \<rightharpoonup> string) \<Rightarrow> string \<Rightarrow> string \<Rightarrow> string" where
  "post_get post key dflt = (case post key of None \<Rightarrow> dflt | Some v \<Rightarrow> v)"

text \<open>
  The validated \<^verbatim>\<open>MailSettingsForm\<close> (not part of the view module): what its
  \<^verbatim>\<open>save()\<close> makes of the event's settings, and the cleaned value of the check
  box.
\<close>

record mail_form =
  save_settings :: "(string \<rightharpoonup> string) \<Rightarrow> (string \<rightharpoonup> string)"
  smtp_use_custom :: "bool option"

record mail_request =
  mail_event :: nat
  mail_POST :: "string \<rightharpoonup> string"

text \<open>
  A connection test is kept with the flag \<^verbatim>\<open>force_custom\<close> the backend was made
  with and the address it was given.
\<close>

record mail_state =
  settings :: "string \<rightharpoonup> string"
  mail_messages :: "(level \<times> message_text) list"
  tests :: "(bool \<times> string option) list"

text \<open>
  \<^verbatim>\<open>backend.test(addr)\<close> of the backend made from the settings: \<open>Some e\<close> is the
  text of the exception it raises.
\<close>

type_synonym backend_test = "bool \<Rightarrow> (string \<rightharpoonup> string) \<Rightarrow> string option \<Rightarrow> string option"

definition custom_ok_text :: message_text where
  "custom_ok_text =
     Text (''Yay, your changes have been saved and the connection attempt to '' @
           ''your SMTP server was successful.'')"

definition not_custom_text :: message_text where
  "not_custom_text =
     Text (''We've been able to contact the SMTP server you configured. '' @
           ''Remember to check the \"use custom SMTP server\" checkbox, '' @
           ''otherwise your SMTP server will not be used.'')"

definition EventMailSettings_form_valid ::
  "backend_test \<Rightarrow> mail_request \<Rightarrow> mail_form \<Rightarrow> mail_state \<Rightarrow> response \<times> mail_state" where
  "EventMailSettings_form_valid test rq form s =
     (let s1 = s\<lparr>settings := save_settings form (settings s)\<rparr> in
      if strip (post_get (mail_POST rq) ''test'' ''0'') = ''1'' then
        (let addr = settings s1 ''mail_from'';
             s2 = s1\<lparr>tests := tests s1 @ [(True, addr)]\<rparr>
         in case test True (settings s1) addr of
              Some e \<Rightarrow>
                (Redirect (Mail_settings (mail_event rq)),
                 s2\<lparr>mail_messages := mail_messages s2 @
                      [(WARNING, Text (''An error occured while contacting the SMTP server: '' @ e))]\<rparr>)
            | None \<Rightarrow>
                (if smtp_use_custom form = Some True then
                   (Redirect (Mail_settings (mail_event rq)),
                    s2\<lparr>mail_messages := mail_messages s2 @ [(SUCCESS, custom_ok_text)]\<rparr>)
                 else
                   (Redirect (Mail_settings (mail_event rq)),
                    s2\<lparr>mail_messages := mail_messages s2 @ [(SUCCESS, not_custom_text)]\<rparr>)))
      else
        (Redirect (Mail_settings (mail_event rq)),
         s1\<lparr>mail_messages := mail_messages s1 @ [(SUCCESS, Text ''Yay! We saved your changes.'')]\<rparr>))"

section \<open>User settings: \<^verbatim>\<open>UserSettings\<close>\<close>

datatype http_method = GET | POST

record user_request =
  req_method :: http_method
  user_POST :: "string \<rightharpoonup> string"

text \<open>
  A form of the framework: bound when it was given data; \<^verbatim>\<open>is_valid()\<close> holds
  for a bound form whose data has no errors, and a form without data has no errors.  Whether the data of the request passes
  the checks of \<^verbatim>\<open>LoginInfoForm\<close> and \<^verbatim>\<open>OrgaProfileForm\<close> is decided
  outside the view module.
\<close>

record bound_form =
  is_bound :: bool
  no_errors :: bool

definition form_valid_p :: "bound_form \<Rightarrow> bool" where
  "form_valid_p f \<longleftrightarrow> is_bound f \<and> no_errors f"

record validators =
  login_ok :: "(string \<rightharpoonup> string) \<Rightarrow> bool"
  profile_ok :: "(string \<rightharpoonup> string) \<Rightarrow> bool"

definition login_form :: "validators \<Rightarrow> user_request \<Rightarrow> bound_form" where
  "login_form v rq =
     (let bind = (req_method rq = POST \<and> user_POST rq ''action'' = Some ''login'')
      in \<lparr>is_bound = bind, no_errors = (bind \<longrightarrow> login_ok v (user_POST rq))\<rparr>)"

definition profile_form :: "validators \<Rightarrow> user_request \<Rightarrow> bound_form" where
  "profile_form v rq =
     (let bind = (req_method rq = POST \<and> user_POST rq ''action'' = Some ''profile'')
      in \<lparr>is_bound = bind, no_errors = (bind \<longrightarrow> profile_ok v (user_POST rq))\<rparr>)"

datatype user_effect =
  Login_form_saved
  | Profile_form_saved
  | Token_regenerated
  | User_log string
  | User_message level message_text

definition saved_text :: message_text where
  "saved_text = Text ''Your changes have been saved.''"

definition token_text :: message_text where
  "token_text =
     Text ''Your API token has been regenerated. The previous token will not be usable any longer.''"

definition trouble_text :: message_text where
  "trouble_text = Text ''Oh :( We had trouble saving your input. See below for details.''"

definition UserSettings_post ::
  "validators \<Rightarrow> user_request \<Rightarrow> user_effect list \<Rightarrow> response \<times> user_effect list" where
  "UserSettings_post v rq tr =
     (if is_bound (login_form v rq) \<and> form_valid_p (login_form v rq) then
        (Redirect User_view,
         tr @ [Login_form_saved, User_message SUCCESS saved_text,
               User_log ''pretalx.user.password.update''])
      else if is_bound (profile_form v rq) \<and> form_valid_p (profile_form v rq) then
        (Redirect User_view,
         tr @ [Profile_form_saved, User_message SUCCESS saved_text,
               User_log ''pretalx.user.profile.update''])
      else if user_POST rq ''form'' = Some ''token'' then
        (Redirect User_view, tr @ [Token_regenerated, User_message SUCCESS token_text])
      else
        (Redirect User_view, tr @ [User_message ERROR trouble_text]))"

section \<open>Example inputs\<close>

definition alice :: user where
  "alice = \<lparr>user_pk = 1, nick = ''alice'', email = ''alice@orga.org''\<rparr>"

definition alice_perm :: permission where
  "alice_perm = \<lparr>pk = Some 1, event = 1, user = Some 1, is_orga = True, is_reviewer = False,
     review_override_count = 0, invitation_email = None, invitation_token = None\<rparr>"

definition team_state :: state where
  "team_state = \<lparr>permissions = [alice_perm], next_pk = 2, users = [alice], action_log = [],
     messages = [], sent = [], logged_in = Some 1\<rparr>"

definition team_request :: request where
  "team_request = \<lparr>req_event = 1, req_user = 1\<rparr>"

definition invitation :: "string \<Rightarrow> bool \<Rightarrow> permission" where
  "invitation addr orga = \<lparr>pk = None, event = 1, user = None, is_orga = orga, is_reviewer = False,
     review_override_count = 0, invitation_email = Some addr, invitation_token = Some ''t0k3n''\<rparr>"

definition mail_ok :: env where
  "mail_ok = \<lparr>invite_raises = (\<lambda>_. None), send_raises = (\<lambda>_. None)\<rparr>"

definition mail_down :: env where
  "mail_down = \<lparr>invite_raises = (\<lambda>_. None), send_raises = (\<lambda>_. Some ''refused'')\<rparr>"

definition invalid_formset :: formset where
  "invalid_formset = \<lparr>is_valid = False, new_objects = [], changed_objects = [], deleted_objects = []\<rparr>"

definition invite_formset :: formset where
  "invite_formset = \<lparr>is_valid = True, new_objects = [invitation ''other@user.org'' True],
     changed_objects = [], deleted_objects = []\<rparr>"

definition orga_create_request :: detail_request where
  "orga_create_request = \<lparr>kwargs_event = None, is_anonymous = False, is_administrator = False,
     has_perm = False, detail_user = Some 1\<rparr>"

definition anonymous_create_request :: detail_request where
  "anonymous_create_request = \<lparr>kwargs_event = None, is_anonymous = True, is_administrator = False,
     has_perm = False, detail_user = None\<rparr>"

definition edit_request :: detail_request where
  "edit_request = \<lparr>kwargs_event = Some ''democon'', is_anonymous = False, is_administrator = False,
     has_perm = True, detail_user = Some 1\<rparr>"

definition new_event_form :: event_form where
  "new_event_form = \<lparr>form_is_valid = True, form_instance = \<lparr>event_pk = None, slug = ''testevent''\<rparr>\<rparr>"

definition edit_event_form :: event_form where
  "edit_event_form = \<lparr>form_is_valid = True, form_instance = \<lparr>event_pk = Some 1, slug = ''csstest''\<rparr>\<rparr>"

definition good_sform :: settings_form where
  "good_sform = \<lparr>sform_is_valid = True, sform_data = [(''show_schedule'', ''True'')]\<rparr>"

definition bad_sform :: settings_form where
  "bad_sform = \<lparr>sform_is_valid = False, sform_data = []\<rparr>"

definition detail_state0 :: detail_state where
  "detail_state0 = \<lparr>events = [\<lparr>event_pk = Some 1, slug = ''democon''\<rparr>], next_event_pk = 2,
     effects = []\<rparr>"

definition accept_all :: validators where
  "accept_all = \<lparr>login_ok = (\<lambda>_. True), profile_ok = (\<lambda>_. True)\<rparr>"

definition reject_all :: validators where
  "reject_all = \<lparr>login_ok = (\<lambda>_. False), profile_ok = (\<lambda>_. False)\<rparr>"

definition login_request :: user_request where
  "login_request = \<lparr>req_method = POST, user_POST = [''action'' \<mapsto> ''login'', ''form'' \<mapsto> ''token'']\<rparr>"

definition profile_request :: user_request where
  "profile_request = \<lparr>req_method = POST, user_POST = [''action'' \<mapsto> ''profile'']\<rparr>"

definition token_request :: user_request where
  "token_request = \<lparr>req_method = POST, user_POST = [''form'' \<mapsto> ''token'']\<rparr>"

definition smtp_form :: "bool option \<Rightarrow> mail_form" where
  "smtp_form custom =
     \<lparr>save_settings = (\<lambda>st. st(''mail_from'' \<mapsto> ''foo@bar.com'', ''smtp_host'' \<mapsto> ''foo.bar.com'',
                                 ''smtp_port'' \<mapsto> ''25'')),
      smtp_use_custom = custom\<rparr>"

definition test_mail_request :: mail_request where
  "test_mail_request = \<lparr>mail_event = 1, mail_POST = [''mail_from'' \<mapsto> ''foo@bar.com'', ''test'' \<mapsto> '' 1 '']\<rparr>"

definition plain_mail_request :: mail_request where
  "plain_mail_request = \<lparr>mail_event = 1, mail_POST = [''mail_from'' \<mapsto> ''foo@bar.com'']\<rparr>"

definition mail_state0 :: mail_state where
  "mail_state0 = \<lparr>settings = [''mail_from'' \<mapsto> ''orga@orga.org''], mail_messages = [], tests = []\<rparr>"

definition smtp_refuses :: backend_test where
  "smtp_refuses force st addr = Some ''Connection refused''"

definition smtp_accepts :: backend_test where
  "smtp_accepts force st addr = None"

definition bob :: user where
  "bob = \<lparr>user_pk = 2, nick = ''bob'', email = ''bob@review.org''\<rparr>"

definition bob_perm :: permission where
  "bob_perm = \<lparr>pk = Some 2, event = 1, user = Some 2, is_orga = False, is_reviewer = True,
     review_override_count = 0, invitation_email = None, invitation_token = None\<rparr>"

definition open_invitation :: permission where
  "open_invitation = \<lparr>pk = Some 3, event = 1, user = None, is_orga = True, is_reviewer = False,
     review_override_count = 0, invitation_email = Some ''bob@orga.org'',
     invitation_token = Some ''AbCdEf''\<rparr>"

definition invited_state :: "permission list \<Rightarrow> state" where
  "invited_state tbl = \<lparr>permissions = tbl, next_pk = 4, users = [alice, bob], action_log = [],
     messages = [], sent = [], logged_in = None\<rparr>"

definition login_as :: "nat \<Rightarrow> user_form" where
  "login_as i = \<lparr>save_users = (\<lambda>us. us), user_id = Some i\<rparr>"
section \<open>Well-formed tables\<close>

text \<open>
  The permission table has a primary key: every row has one, no two rows share one,
  and every key came from the sequence.
\<close>

definition table_ok :: "state \<Rightarrow> bool" where
  "table_ok s \<longleftrightarrow>
     distinct (map pk (permissions s))
     \<and> (\<forall>r \<in> set (permissions s). case pk r of None \<Rightarrow> False | Some i \<Rightarrow> i < next_pk s)"

text \<open>The rows of one user for one event.\<close>

definition user_permissions :: "nat \<Rightarrow> nat \<Rightarrow> permission list \<Rightarrow> permission list" where
  "user_permissions ev u tbl = filter (\<lambda>r. event r = ev \<and> user r = Some u) tbl"

definition double_invite_formset :: formset where
  "double_invite_formset = \<lparr>is_valid = True,
     new_objects = [invitation ''alice@orga.org'' True, invitation ''alice@orga.org'' True],
     changed_objects = [], deleted_objects = []\<rparr>"

definition invite_bob_formset :: formset where
  "invite_bob_formset = \<lparr>is_valid = True, new_objects = [invitation ''bob@review.org'' True],
     changed_objects = [], deleted_objects = []\<rparr>"

definition team_state2 :: state where
  "team_state2 = \<lparr>permissions = [alice_perm], next_pk = 2, users = [alice, bob], action_log = [],
     messages = [], sent = [], logged_in = Some 1\<rparr>"

text \<open>
  The object that line 228 saves: a permission with an invitation address has been
  through lines 215 to 220, any other one is saved as the formset made it.
\<close>

definition saved_form :: "user list \<Rightarrow> permission \<Rightarrow> permission" where
  "saved_form us p = (if truthy (invitation_email p) then attach_user us p else p)"

text \<open>
  The instances of a formset carry no primary key, or one that came from the sequence
  (the formset builds the changed instances from rows of the table).
\<close>

definition keys_ok :: "nat \<Rightarrow> permission list \<Rightarrow> bool" where
  "keys_ok n ps \<longleftrightarrow> (\<forall>p \<in> set ps. pk p = None \<or> pk_key p < n)"

text \<open>At most one row for every pair of an event and a user.\<close>

definition one_per_user :: "permission list \<Rightarrow> bool" where
  "one_per_user tbl \<longleftrightarrow>
     (\<forall>r \<in> set tbl. user r = None \<or> length (user_permissions (event r) (the (user r)) tbl) \<le> 1)"

definition bob_second :: permission where
  "bob_second = \<lparr>pk = Some 4, event = 1, user = Some 2, is_orga = False, is_reviewer = False,
     review_override_count = 0, invitation_email = None, invitation_token = None\<rparr>"

definition dup_state :: state where
  "dup_state = \<lparr>permissions = [alice_perm, bob_perm, bob_second], next_pk = 5,
     users = [alice, bob], action_log = [], messages = [], sent = [], logged_in = Some 1\<rparr>"

definition two_state :: state where
  "two_state = \<lparr>permissions = [alice_perm, bob_perm, open_invitation, bob_second], next_pk = 5,
     users = [alice, bob], action_log = [], messages = [], sent = [], logged_in = None\<rparr>"

section \<open>Properties\<close>

subsection \<open>Evaluation of the examples\<close>

lemmas team_eval =
  EventTeam_post_def EventTeam_post_body_def atomic_def has_remaining_team_def
  count_orga_permissions_def formset_save_def invite_step_def send_invite_email_def
  save_permission_def delete_permission_def dedup_step_def attach_user_def find_user_def
  qs_first_def
  truthy_def invited_text_def format_str_def lonely_text_def Let_def

lemmas team_examples =
  alice_def alice_perm_def team_state_def team_request_def invitation_def mail_ok_def
  mail_down_def invalid_formset_def invite_formset_def

subsection \<open>Team settings: an invalid formset, and a failure on the way\<close>

text \<open>
  C4.  A POST to the team settings whose formset does not validate answers with the
  error message \<^verbatim>\<open>phrases.base.error_saving_changes\<close> and the redirect to the team
  settings, and the state is otherwise as before: no permission row is created,
  changed or deleted.  The handler runs under \<^verbatim>\<open>transaction.atomic\<close>: whenever
  it raises, the permission table is the one from before the request.
\<close>

theorem EventTeam_post_invalid_or_failed:
  "(\<not> is_valid fs \<longrightarrow>
      EventTeam_post en rq fs s =
        Inr (Redirect (Team_settings (req_event rq)),
             s\<lparr>messages := messages s @ [(ERROR, Phrase ''base.error_saving_changes'')]\<rparr>))
   \<and> (\<forall>e s'. EventTeam_post en rq fs s = Inl (e, s') \<longrightarrow> permissions s' = permissions s)"
  by (auto simp: EventTeam_post_def EventTeam_post_body_def atomic_def split: sum.splits prod.splits)

text \<open>
  The witness: an invalid formset; and an invitation whose mail cannot be sent, where
  the body of the handler had already written the new row when the exception came.
\<close>

theorem EventTeam_post_invalid_or_failed_witness:
  "\<not> is_valid invalid_formset
   \<and> EventTeam_post mail_ok team_request invalid_formset team_state =
       Inr (Redirect (Team_settings 1),
            team_state\<lparr>messages := [(ERROR, Phrase ''base.error_saving_changes'')]\<rparr>)
   \<and> (\<exists>s1. EventTeam_post_body mail_down team_request invite_formset team_state
              = Inl (Mail_exception ''refused'', s1)
            \<and> permissions s1 \<noteq> permissions team_state)
   \<and> (\<exists>s'. EventTeam_post mail_down team_request invite_formset team_state
              = Inl (Mail_exception ''refused'', s')
            \<and> permissions s' = permissions team_state)"
proof -
  have a: "\<not> is_valid invalid_formset"
    by (simp add: invalid_formset_def)
  have b: "EventTeam_post mail_ok team_request invalid_formset team_state =
       Inr (Redirect (Team_settings 1),
            team_state\<lparr>messages := [(ERROR, Phrase ''base.error_saving_changes'')]\<rparr>)"
    using a EventTeam_post_invalid_or_failed [of invalid_formset mail_ok team_request team_state]
    by (simp add: team_request_def team_state_def)
  have c: "\<exists>s1. EventTeam_post_body mail_down team_request invite_formset team_state
              = Inl (Mail_exception ''refused'', s1)
            \<and> permissions s1 \<noteq> permissions team_state"
    by (simp add: team_eval team_examples)
  obtain s' where d: "EventTeam_post mail_down team_request invite_formset team_state
              = Inl (Mail_exception ''refused'', s')"
    by (simp add: team_eval team_examples)
  from d EventTeam_post_invalid_or_failed [of invite_formset mail_down team_request team_state]
  have "permissions s' = permissions team_state" by blast
  with a b c d show ?thesis by blast
qed

subsection \<open>Event settings: who may create an event\<close>

lemmas detail_eval =
  EventDetail_dispatch_def EventDetail_action_def EventDetail_post_def
  EventDetail_form_valid_def save_event_def bool_pk_def new_event_text_def Let_def

lemmas detail_examples =
  orga_create_request_def anonymous_create_request_def edit_request_def new_event_form_def
  edit_event_form_def good_sform_def bad_sform_def detail_state0_def

text \<open>
  C10.  The action of the event view is \<open>Create\<close> exactly when the URL names no
  event.  In that action \<^verbatim>\<open>dispatch\<close> raises \<^verbatim>\<open>PermissionDenied\<close> for a user
  who is neither anonymous nor an administrator, before the handler of the parent class
  runs and with the state as it was, so no event is created; for every other user, the
  anonymous one among them, this check lets the request through to the handler.
\<close>

theorem EventDetail_dispatch_create:
  "(EventDetail_action rq = Create \<longleftrightarrow> kwargs_event rq = None)
   \<and> (EventDetail_action rq = Create \<longrightarrow>
        (\<not> is_anonymous rq \<and> \<not> is_administrator rq \<longrightarrow>
           EventDetail_dispatch super_dispatch rq s = Inl (PermissionDenied, s))
        \<and> (is_anonymous rq \<or> is_administrator rq \<longrightarrow>
           EventDetail_dispatch super_dispatch rq s = super_dispatch s))"
  by (simp add: EventDetail_dispatch_def EventDetail_action_def)

text \<open>
  The witness: an organiser who is no administrator posts a valid event form to the
  create URL.  The handler alone would add the event; \<^verbatim>\<open>dispatch\<close> answers with
  \<^verbatim>\<open>PermissionDenied\<close> and the table of events is as before.  The same request of
  the anonymous user reaches the handler.
\<close>

theorem EventDetail_dispatch_create_witness:
  "EventDetail_action orga_create_request = Create
   \<and> \<not> is_anonymous orga_create_request \<and> \<not> is_administrator orga_create_request
   \<and> (\<exists>r s'. EventDetail_post orga_create_request None new_event_form detail_state0 = Inr (r, s')
          \<and> events s' \<noteq> events detail_state0)
   \<and> EventDetail_dispatch (EventDetail_post orga_create_request None new_event_form)
        orga_create_request detail_state0 = Inl (PermissionDenied, detail_state0)
   \<and> EventDetail_action anonymous_create_request = Create
   \<and> is_anonymous anonymous_create_request
   \<and> EventDetail_dispatch (EventDetail_post anonymous_create_request None new_event_form)
        anonymous_create_request detail_state0
      = EventDetail_post anonymous_create_request None new_event_form detail_state0"
proof -
  have a: "EventDetail_action orga_create_request = Create"
    by (simp add: detail_eval detail_examples)
  have b: "\<not> is_anonymous orga_create_request \<and> \<not> is_administrator orga_create_request"
    by (simp add: detail_examples)
  have c: "\<exists>r s'. EventDetail_post orga_create_request None new_event_form detail_state0 = Inr (r, s')
          \<and> events s' \<noteq> events detail_state0"
    by (simp add: detail_eval detail_examples)
  have d: "EventDetail_action anonymous_create_request = Create"
    by (simp add: detail_eval detail_examples)
  have e: "is_anonymous anonymous_create_request"
    by (simp add: detail_examples)
  note t1 = EventDetail_dispatch_create
    [of orga_create_request "EventDetail_post orga_create_request None new_event_form" detail_state0]
  note t2 = EventDetail_dispatch_create
    [of anonymous_create_request "EventDetail_post anonymous_create_request None new_event_form"
        detail_state0]
  from a b t1 have f:
    "EventDetail_dispatch (EventDetail_post orga_create_request None new_event_form)
        orga_create_request detail_state0 = Inl (PermissionDenied, detail_state0)"
    by blast
  from d e t2 have g:
    "EventDetail_dispatch (EventDetail_post anonymous_create_request None new_event_form)
        anonymous_create_request detail_state0
      = EventDetail_post anonymous_create_request None new_event_form detail_state0"
    by blast
  from a b c d e f g show ?thesis by blast
qed

subsection \<open>User settings: one action per request\<close>

lemmas user_eval =
  UserSettings_post_def login_form_def profile_form_def form_valid_p_def saved_text_def
  token_text_def trouble_text_def Let_def

lemmas user_examples =
  accept_all_def reject_all_def login_request_def profile_request_def token_request_def

text \<open>
  C7.  A POST to the user settings always answers with the redirect to the user
  settings page, and what it does before is one of four things, tried in this order:
  when the login form is bound and valid, the form is saved and the action
  \<^verbatim>\<open>pretalx.user.password.update\<close> logged; otherwise, when the profile form is bound
  and valid, that form is saved and \<^verbatim>\<open>pretalx.user.profile.update\<close> logged;
  otherwise, when the POST field \<^verbatim>\<open>form\<close> is \<^verbatim>\<open>token\<close>, the API token is
  regenerated; otherwise the error message is shown.  Exactly one of the four marks
  (login form saved, profile form saved, token regenerated, error message) is among
  the effects of the request.
\<close>

theorem UserSettings_post_exclusive:
  "\<exists>new. UserSettings_post v rq tr = (Redirect User_view, tr @ new)
     \<and> (form_valid_p (login_form v rq) \<longrightarrow>
          new = [Login_form_saved, User_message SUCCESS saved_text,
                 User_log ''pretalx.user.password.update''])
     \<and> (\<not> form_valid_p (login_form v rq) \<and> form_valid_p (profile_form v rq) \<longrightarrow>
          new = [Profile_form_saved, User_message SUCCESS saved_text,
                 User_log ''pretalx.user.profile.update''])
     \<and> (\<not> form_valid_p (login_form v rq) \<and> \<not> form_valid_p (profile_form v rq)
          \<and> user_POST rq ''form'' = Some ''token'' \<longrightarrow>
          new = [Token_regenerated, User_message SUCCESS token_text])
     \<and> (\<not> form_valid_p (login_form v rq) \<and> \<not> form_valid_p (profile_form v rq)
          \<and> user_POST rq ''form'' \<noteq> Some ''token'' \<longrightarrow>
          new = [User_message ERROR trouble_text])
     \<and> length (filter (\<lambda>x. x \<in> set new)
           [Login_form_saved, Profile_form_saved, Token_regenerated,
            User_message ERROR trouble_text]) = 1"
  by (simp add: UserSettings_post_def form_valid_p_def saved_text_def token_text_def
      trouble_text_def)

text \<open>
  The witness: a request that binds a valid login form and also carries
  \<^verbatim>\<open>form=token\<close> saves the login form and leaves the token alone; a profile
  request saves the profile; a token request regenerates the token; a profile request
  whose data is refused gets the error message.
\<close>

theorem UserSettings_post_exclusive_witness:
  "form_valid_p (login_form accept_all login_request)
   \<and> user_POST login_request ''form'' = Some ''token''
   \<and> UserSettings_post accept_all login_request [] =
       (Redirect User_view,
        [Login_form_saved, User_message SUCCESS saved_text,
         User_log ''pretalx.user.password.update''])
   \<and> \<not> form_valid_p (login_form accept_all profile_request)
   \<and> form_valid_p (profile_form accept_all profile_request)
   \<and> UserSettings_post accept_all profile_request [] =
       (Redirect User_view,
        [Profile_form_saved, User_message SUCCESS saved_text,
         User_log ''pretalx.user.profile.update''])
   \<and> \<not> form_valid_p (login_form accept_all token_request)
   \<and> \<not> form_valid_p (profile_form accept_all token_request)
   \<and> UserSettings_post accept_all token_request [] =
       (Redirect User_view, [Token_regenerated, User_message SUCCESS token_text])
   \<and> \<not> form_valid_p (login_form reject_all profile_request)
   \<and> \<not> form_valid_p (profile_form reject_all profile_request)
   \<and> user_POST profile_request ''form'' \<noteq> Some ''token''
   \<and> UserSettings_post reject_all profile_request [] =
       (Redirect User_view, [User_message ERROR trouble_text])"
proof -
  have h1: "form_valid_p (login_form accept_all login_request)"
    and h1': "user_POST login_request ''form'' = Some ''token''"
    and h2: "\<not> form_valid_p (login_form accept_all profile_request)"
      "form_valid_p (profile_form accept_all profile_request)"
    and h3: "\<not> form_valid_p (login_form accept_all token_request)"
      "\<not> form_valid_p (profile_form accept_all token_request)"
      "user_POST token_request ''form'' = Some ''token''"
    and h4: "\<not> form_valid_p (login_form reject_all profile_request)"
      "\<not> form_valid_p (profile_form reject_all profile_request)"
      "user_POST profile_request ''form'' \<noteq> Some ''token''"
    by (simp_all add: user_eval user_examples)
  from h1 UserSettings_post_exclusive [of accept_all login_request "[]"]
  have r1: "UserSettings_post accept_all login_request [] =
       (Redirect User_view,
        [Login_form_saved, User_message SUCCESS saved_text,
         User_log ''pretalx.user.password.update''])"
    by auto
  from h2 UserSettings_post_exclusive [of accept_all profile_request "[]"]
  have r2: "UserSettings_post accept_all profile_request [] =
       (Redirect User_view,
        [Profile_form_saved, User_message SUCCESS saved_text,
         User_log ''pretalx.user.profile.update''])"
    by auto
  from h3 UserSettings_post_exclusive [of accept_all token_request "[]"]
  have r3: "UserSettings_post accept_all token_request [] =
       (Redirect User_view, [Token_regenerated, User_message SUCCESS token_text])"
    by auto
  from h4 UserSettings_post_exclusive [of reject_all profile_request "[]"]
  have r4: "UserSettings_post reject_all profile_request [] =
       (Redirect User_view, [User_message ERROR trouble_text])"
    by auto
  from h1 h1' h2 h3 h4 r1 r2 r3 r4 show ?thesis by blast
qed

subsection \<open>Mail settings: the test of the connection\<close>

lemmas mail_eval =
  EventMailSettings_form_valid_def post_get_def strip_def isspace_def custom_ok_text_def
  not_custom_text_def Let_def

lemmas mail_examples =
  smtp_form_def test_mail_request_def plain_mail_request_def mail_state0_def
  smtp_refuses_def smtp_accepts_def

text \<open>
  C3.  \<^verbatim>\<open>form_valid\<close> of the mail settings first saves the form, and the settings
  stay saved whatever follows.  The connection test is attempted exactly when the POST
  field \<^verbatim>\<open>test\<close> (\<^verbatim>\<open>'0'\<close> when absent), stripped, is \<^verbatim>\<open>'1'\<close>; it uses the
  backend made with \<^verbatim>\<open>force_custom=True\<close> and the \<^verbatim>\<open>mail_from\<close> of the saved
  settings.  When the test raises, a warning with the text of the exception is shown
  and the answer is the redirect to the mail settings.  When it succeeds, a success
  message is shown, one text when \<^verbatim>\<open>smtp_use_custom\<close> was checked and another
  when it was not.
\<close>

theorem EventMailSettings_form_valid_test:
  "settings (snd (EventMailSettings_form_valid test rq form s)) = save_settings form (settings s)
   \<and> fst (EventMailSettings_form_valid test rq form s) = Redirect (Mail_settings (mail_event rq))
   \<and> tests (snd (EventMailSettings_form_valid test rq form s)) =
       (if strip (post_get (mail_POST rq) ''test'' ''0'') = ''1''
        then tests s @ [(True, save_settings form (settings s) ''mail_from'')]
        else tests s)
   \<and> (strip (post_get (mail_POST rq) ''test'' ''0'') = ''1'' \<longrightarrow>
        (\<forall>e. test True (save_settings form (settings s)) (save_settings form (settings s) ''mail_from'')
               = Some e \<longrightarrow>
             mail_messages (snd (EventMailSettings_form_valid test rq form s)) =
               mail_messages s @
                 [(WARNING, Text (''An error occured while contacting the SMTP server: '' @ e))])
        \<and> (test True (save_settings form (settings s)) (save_settings form (settings s) ''mail_from'')
               = None \<longrightarrow>
             mail_messages (snd (EventMailSettings_form_valid test rq form s)) =
               mail_messages s @
                 [(SUCCESS, if smtp_use_custom form = Some True then custom_ok_text
                            else not_custom_text)]))
   \<and> custom_ok_text \<noteq> not_custom_text"
  by (simp add: EventMailSettings_form_valid_def Let_def custom_ok_text_def not_custom_text_def
      split: option.splits)

text \<open>
  The witness: the field \<^verbatim>\<open>test\<close> is \<^verbatim>\<open>' 1 '\<close>.  A server that refuses the
  connection leaves the new \<^verbatim>\<open>mail_from\<close> saved and gives the warning; a server
  that accepts gives the success message of the checked box; without the field no test
  is attempted.
\<close>

theorem EventMailSettings_form_valid_test_witness:
  "strip (post_get (mail_POST test_mail_request) ''test'' ''0'') = ''1''
   \<and> EventMailSettings_form_valid smtp_refuses test_mail_request (smtp_form (Some True)) mail_state0 =
       (Redirect (Mail_settings 1),
        \<lparr>settings = save_settings (smtp_form (Some True)) (settings mail_state0),
         mail_messages =
           [(WARNING, Text ''An error occured while contacting the SMTP server: Connection refused'')],
         tests = [(True, Some ''foo@bar.com'')]\<rparr>)
   \<and> mail_messages (snd (EventMailSettings_form_valid smtp_accepts test_mail_request
         (smtp_form (Some True)) mail_state0)) = [(SUCCESS, custom_ok_text)]
   \<and> strip (post_get (mail_POST plain_mail_request) ''test'' ''0'') \<noteq> ''1''
   \<and> tests (snd (EventMailSettings_form_valid smtp_refuses plain_mail_request
         (smtp_form None) mail_state0)) = []"
proof -
  have a: "strip (post_get (mail_POST test_mail_request) ''test'' ''0'') = ''1''"
    by (simp add: mail_eval mail_examples)
  have b: "strip (post_get (mail_POST plain_mail_request) ''test'' ''0'') \<noteq> ''1''"
    by (simp add: mail_eval mail_examples)
  have c: "smtp_refuses True (save_settings (smtp_form (Some True)) (settings mail_state0))
             (save_settings (smtp_form (Some True)) (settings mail_state0) ''mail_from'')
           = Some ''Connection refused''"
    by (simp add: smtp_refuses_def)
  have d: "smtp_accepts True (save_settings (smtp_form (Some True)) (settings mail_state0))
             (save_settings (smtp_form (Some True)) (settings mail_state0) ''mail_from'')
           = None"
    by (simp add: smtp_accepts_def)
  have m: "save_settings (smtp_form (Some True)) (settings mail_state0) ''mail_from''
           = Some ''foo@bar.com''"
    by (simp add: mail_examples)
  note t1 = EventMailSettings_form_valid_test
    [of smtp_refuses test_mail_request "smtp_form (Some True)" mail_state0]
  note t2 = EventMailSettings_form_valid_test
    [of smtp_accepts test_mail_request "smtp_form (Some True)" mail_state0]
  note t3 = EventMailSettings_form_valid_test
    [of smtp_refuses plain_mail_request "smtp_form None" mail_state0]
  let ?r = "EventMailSettings_form_valid smtp_refuses test_mail_request (smtp_form (Some True))
              mail_state0"
  from t1 a c m have
    "settings (snd ?r) = save_settings (smtp_form (Some True)) (settings mail_state0)"
    "fst ?r = Redirect (Mail_settings 1)"
    "tests (snd ?r) = [(True, Some ''foo@bar.com'')]"
    "mail_messages (snd ?r) =
       [(WARNING, Text ''An error occured while contacting the SMTP server: Connection refused'')]"
    by (simp_all add: test_mail_request_def mail_state0_def)
  then have r1: "?r =
       (Redirect (Mail_settings 1),
        \<lparr>settings = save_settings (smtp_form (Some True)) (settings mail_state0),
         mail_messages =
           [(WARNING, Text ''An error occured while contacting the SMTP server: Connection refused'')],
         tests = [(True, Some ''foo@bar.com'')]\<rparr>)"
    by (cases ?r) auto
  from t2 a d have r2: "mail_messages (snd (EventMailSettings_form_valid smtp_accepts
         test_mail_request (smtp_form (Some True)) mail_state0)) = [(SUCCESS, custom_ok_text)]"
    by (simp add: mail_state0_def smtp_form_def)
  from t3 b have r3: "tests (snd (EventMailSettings_form_valid smtp_refuses plain_mail_request
         (smtp_form None) mail_state0)) = []"
    by (simp add: mail_state0_def)
  from a b r1 r2 r3 show ?thesis by blast
qed

subsection \<open>Event settings: the CSS task\<close>

lemma save_event_effects:
  "save_event e s = (e', s') \<Longrightarrow>
     effects s' = effects s @ [Event_saved e'] \<and> e' \<in> set (events s')
     \<and> event_pk e' \<noteq> None \<and> (event_pk e \<noteq> None \<longrightarrow> e' = e)"
  by (auto simp: save_event_def Let_def split: option.splits if_splits)

text \<open>
  C6.  Every submission of the event form that succeeds (the event form validated and
  the answer is not the form again) saves the event and then, as the last effect and
  only there, dispatches \<^verbatim>\<open>regenerate_css\<close> with the primary key of the saved event.
  When the event existed (its primary key is set), the settings form had validated,
  and the event and the settings were both saved before the dispatch.  When the event
  existed and the settings form does not validate, the form is shown again and the
  state is as before: nothing saved, nothing dispatched.
\<close>

theorem EventDetail_regenerate_css_once:
  "(EventDetail_post rq sform form s = Inr (resp, s') \<and> resp \<noteq> Form_invalid \<longrightarrow>
      form_is_valid form
      \<and> (\<exists>inst pre.
            effects s' = effects s @ Event_saved inst # pre @ [Regenerate_css (event_pk inst)]
            \<and> (\<forall>k. Regenerate_css k \<notin> set (Event_saved inst # pre))
            \<and> event_pk inst \<noteq> None \<and> inst \<in> set (events s')
            \<and> (bool_pk (event_pk (form_instance form)) \<longrightarrow>
                 (\<exists>sf. sform = Some sf \<and> sform_is_valid sf \<and> inst = form_instance form
                    \<and> pre = [Settings_saved (sform_data sf),
                              Log_action ''pretalx.event.update'' (detail_user rq),
                              Message SUCCESS (Text ''The event settings have been saved.'')]))))
   \<and> (bool_pk (event_pk (form_instance form)) \<and> sform = Some sf \<and> \<not> sform_is_valid sf \<longrightarrow>
        EventDetail_form_valid rq sform form s = Inr (Form_invalid, s)
        \<and> EventDetail_post rq sform form s = Inr (Form_invalid, s))"
proof (intro conjI impI)
  assume a: "EventDetail_post rq sform form s = Inr (resp, s') \<and> resp \<noteq> Form_invalid"
  then show v: "form_is_valid form"
    by (auto simp: EventDetail_post_def split: if_splits)
  obtain inst s1 where sv: "save_event (form_instance form) s = (inst, s1)"
    by (cases "save_event (form_instance form) s") auto
  note fx = save_event_effects [OF sv]
  show "\<exists>inst pre.
            effects s' = effects s @ Event_saved inst # pre @ [Regenerate_css (event_pk inst)]
            \<and> (\<forall>k. Regenerate_css k \<notin> set (Event_saved inst # pre))
            \<and> event_pk inst \<noteq> None \<and> inst \<in> set (events s')
            \<and> (bool_pk (event_pk (form_instance form)) \<longrightarrow>
                 (\<exists>sf. sform = Some sf \<and> sform_is_valid sf \<and> inst = form_instance form
                    \<and> pre = [Settings_saved (sform_data sf),
                              Log_action ''pretalx.event.update'' (detail_user rq),
                              Message SUCCESS (Text ''The event settings have been saved.'')]))"
  proof (cases "bool_pk (event_pk (form_instance form))")
    case True
    with a v sv obtain sf where sf: "sform = Some sf" "sform_is_valid sf"
      and s': "s' = s1\<lparr>effects := effects s1 @
                     [Settings_saved (sform_data sf),
                      Log_action ''pretalx.event.update'' (detail_user rq),
                      Message SUCCESS (Text ''The event settings have been saved.''),
                      Regenerate_css (event_pk inst)]\<rparr>"
      by (cases sform) (auto simp: EventDetail_post_def EventDetail_form_valid_def Let_def
          split: if_splits)
    from True have "event_pk (form_instance form) \<noteq> None"
      by (auto simp: bool_pk_def split: option.splits)
    with fx have "inst = form_instance form" by simp
    with fx sf s' show ?thesis
      by (intro exI [of _ inst]
          exI [of _ "[Settings_saved (sform_data sf),
                      Log_action ''pretalx.event.update'' (detail_user rq),
                      Message SUCCESS (Text ''The event settings have been saved.'')]"]) simp
  next
    case False
    with a v sv have s': "s' = s1\<lparr>effects := effects s1 @
                     [Message SUCCESS new_event_text,
                      Log_action ''pretalx.event.create'' (detail_user rq),
                      Permission_created (event_pk inst) (detail_user rq) True,
                      Regenerate_css (event_pk inst)]\<rparr>"
      by (auto simp: EventDetail_post_def EventDetail_form_valid_def Let_def split: if_splits)
    with fx False show ?thesis
      by (intro exI [of _ inst]
          exI [of _ "[Message SUCCESS new_event_text,
                      Log_action ''pretalx.event.create'' (detail_user rq),
                      Permission_created (event_pk inst) (detail_user rq) True]"]) simp
  qed
next
  assume "bool_pk (event_pk (form_instance form)) \<and> sform = Some sf \<and> \<not> sform_is_valid sf"
  then show "EventDetail_form_valid rq sform form s = Inr (Form_invalid, s)"
    by (simp add: EventDetail_form_valid_def)
  then show "EventDetail_post rq sform form s = Inr (Form_invalid, s)"
    by (simp add: EventDetail_post_def)
qed

text \<open>
  The witness: a new event is created under the next primary key and the task gets
  that key; an edit of event 1 with a valid settings form saves both and dispatches
  for key 1; the same edit with an invalid settings form changes nothing.
\<close>

theorem EventDetail_regenerate_css_once_witness:
  "EventDetail_post orga_create_request None new_event_form detail_state0 =
     Inr (Redirect (Event_settings (Some 2)),
          \<lparr>events = [\<lparr>event_pk = Some 1, slug = ''democon''\<rparr>, \<lparr>event_pk = Some 2, slug = ''testevent''\<rparr>],
           next_event_pk = 3,
           effects = [Event_saved \<lparr>event_pk = Some 2, slug = ''testevent''\<rparr>,
                      Message SUCCESS new_event_text,
                      Log_action ''pretalx.event.create'' (Some 1),
                      Permission_created (Some 2) (Some 1) True,
                      Regenerate_css (Some 2)]\<rparr>)
   \<and> (\<exists>s'. EventDetail_post edit_request (Some good_sform) edit_event_form detail_state0 =
          Inr (Redirect (Event_settings (Some 1)), s')
        \<and> effects s' = [Event_saved (form_instance edit_event_form),
                        Settings_saved (sform_data good_sform),
                        Log_action ''pretalx.event.update'' (Some 1),
                        Message SUCCESS (Text ''The event settings have been saved.''),
                        Regenerate_css (Some 1)])
   \<and> bool_pk (event_pk (form_instance edit_event_form)) \<and> \<not> sform_is_valid bad_sform
   \<and> EventDetail_post edit_request (Some bad_sform) edit_event_form detail_state0 =
       Inr (Form_invalid, detail_state0)"
proof -
  have a: "EventDetail_post orga_create_request None new_event_form detail_state0 =
     Inr (Redirect (Event_settings (Some 2)),
          \<lparr>events = [\<lparr>event_pk = Some 1, slug = ''democon''\<rparr>, \<lparr>event_pk = Some 2, slug = ''testevent''\<rparr>],
           next_event_pk = 3,
           effects = [Event_saved \<lparr>event_pk = Some 2, slug = ''testevent''\<rparr>,
                      Message SUCCESS new_event_text,
                      Log_action ''pretalx.event.create'' (Some 1),
                      Permission_created (Some 2) (Some 1) True,
                      Regenerate_css (Some 2)]\<rparr>)"
    by (simp add: detail_eval detail_examples)
  obtain s' where b: "EventDetail_post edit_request (Some good_sform) edit_event_form detail_state0 =
          Inr (Redirect (Event_settings (Some 1)), s')"
    by (simp add: detail_eval detail_examples)
  have c: "bool_pk (event_pk (form_instance edit_event_form))" "\<not> sform_is_valid bad_sform"
    by (simp_all add: detail_eval detail_examples)
  from b c(1)
    EventDetail_regenerate_css_once [of edit_request "Some good_sform" edit_event_form
      detail_state0 "Redirect (Event_settings (Some 1))" s' good_sform]
  have d: "effects s' = [Event_saved (form_instance edit_event_form),
                        Settings_saved (sform_data good_sform),
                        Log_action ''pretalx.event.update'' (Some 1),
                        Message SUCCESS (Text ''The event settings have been saved.''),
                        Regenerate_css (Some 1)]"
    by (auto simp: detail_state0_def edit_request_def edit_event_form_def)
  from c
    EventDetail_regenerate_css_once [of edit_request "Some bad_sform" edit_event_form
      detail_state0 "Form_invalid" detail_state0 bad_sform]
  have e: "EventDetail_post edit_request (Some bad_sform) edit_event_form detail_state0 =
       Inr (Form_invalid, detail_state0)"
    by blast
  from a b c d e show ?thesis by blast
qed

subsection \<open>Saving and deleting rows\<close>

lemma save_permission_fields:
  "save_permission p s = (p', s') \<Longrightarrow> p' = p\<lparr>pk := pk p'\<rparr> \<and> pk p' \<noteq> None"
  by (auto simp: save_permission_def Let_def split: option.splits if_splits)

lemma save_permission_frame:
  "save_permission p s = (p', s') \<Longrightarrow>
     users s' = users s \<and> messages s' = messages s \<and> action_log s' = action_log s
     \<and> sent s' = sent s \<and> logged_in s' = logged_in s \<and> next_pk s \<le> next_pk s'"
  by (auto simp: save_permission_def Let_def split: option.splits if_splits)

lemma save_permission_mem:
  "save_permission p s = (p', s') \<Longrightarrow> p' \<in> set (permissions s')"
  by (auto simp: save_permission_def Let_def split: option.splits if_splits)

lemma save_permission_set:
  "save_permission p s = (p', s') \<Longrightarrow> r \<in> set (permissions s') \<Longrightarrow>
     r = p' \<or> (r \<in> set (permissions s) \<and> (pk p \<noteq> None \<longrightarrow> pk r \<noteq> pk p))"
  by (auto simp: save_permission_def Let_def split: option.splits if_splits)

lemma save_permission_keeps:
  "save_permission p s = (p', s') \<Longrightarrow> r \<in> set (permissions s) \<Longrightarrow> pk r \<noteq> pk p \<Longrightarrow>
     r \<in> set (permissions s')"
  by (auto simp: save_permission_def Let_def split: option.splits if_splits)

lemma table_ok_iff:
  "table_ok s \<longleftrightarrow>
     distinct (map pk (permissions s))
     \<and> (\<forall>r \<in> set (permissions s). \<exists>i. pk r = Some i \<and> i < next_pk s)"
  unfolding table_ok_def by (auto split: option.splits)

lemma map_pk_replace:
  "pk p = Some i \<Longrightarrow> map pk (map (\<lambda>r. if pk r = Some i then p else r) tbl) = map pk tbl"
  by (induction tbl) auto

lemma save_permission_table_ok:
  assumes "save_permission p s = (p', s')" and "table_ok s"
    and "\<And>i. pk p = Some i \<Longrightarrow> i < next_pk s"
  shows "table_ok s'"
proof (cases "pk p")
  case None
  with assms(1) have s': "permissions s' = permissions s @ [p\<lparr>pk := Some (next_pk s)\<rparr>]"
      "next_pk s' = Suc (next_pk s)"
    by (auto simp: save_permission_def Let_def)
  from assms(2) have "Some (next_pk s) \<notin> pk ` set (permissions s)"
    by (auto simp: table_ok_iff)
  moreover from assms(2)
  have "\<forall>r \<in> set (permissions s). \<exists>i. pk r = Some i \<and> i < Suc (next_pk s)"
    by (auto simp: table_ok_iff intro: less_SucI)
  moreover from assms(2) have "distinct (map pk (permissions s))"
    by (simp add: table_ok_iff)
  ultimately show ?thesis
    by (simp add: table_ok_iff s')
next
  case (Some i)
  show ?thesis
  proof (cases "\<exists>r \<in> set (permissions s). pk r = Some i")
    case True
    with Some assms(1) have s': "permissions s' =
        map (\<lambda>r. if pk r = Some i then p else r) (permissions s)" "next_pk s' = next_pk s"
      by (auto simp: save_permission_def)
    from Some have m: "map pk (permissions s') = map pk (permissions s)"
      unfolding s' by (rule map_pk_replace)
    from assms(2) have b: "\<forall>r \<in> set (permissions s). \<exists>i. pk r = Some i \<and> i < next_pk s"
      by (simp add: table_ok_iff)
    have "\<forall>r \<in> set (permissions s'). \<exists>i. pk r = Some i \<and> i < next_pk s'"
    proof
      fix r assume "r \<in> set (permissions s')"
      then have "r = p \<or> r \<in> set (permissions s)"
        unfolding s' by auto
      with b Some assms(3) show "\<exists>i. pk r = Some i \<and> i < next_pk s'"
        unfolding s' by auto
    qed
    moreover from assms(2) m have "distinct (map pk (permissions s'))"
      by (simp add: table_ok_iff)
    ultimately show ?thesis
      by (simp add: table_ok_iff)
  next
    case False
    with Some assms(1) have s': "permissions s' = permissions s @ [p]" "next_pk s' = next_pk s"
      by (auto simp: save_permission_def)
    from False have "Some i \<notin> pk ` set (permissions s)" by force
    with assms(2,3) Some show ?thesis
      by (simp add: table_ok_iff s')
  qed
qed

lemma delete_permission_set:
  "delete_permission p s = Inr s' \<Longrightarrow>
     set (permissions s') = {r \<in> set (permissions s). pk r \<noteq> pk p} \<and> pk p \<noteq> None"
  by (cases "pk p") (auto simp: delete_permission_def)

lemma delete_permission_frame:
  "delete_permission p s = Inr s' \<Longrightarrow>
     users s' = users s \<and> messages s' = messages s \<and> action_log s' = action_log s
     \<and> sent s' = sent s \<and> logged_in s' = logged_in s \<and> next_pk s' = next_pk s"
  by (cases "pk p") (auto simp: delete_permission_def)

lemma delete_permission_table_ok:
  "delete_permission p s = Inr s' \<Longrightarrow> table_ok s \<Longrightarrow> table_ok s'"
  by (cases "pk p") (auto simp: delete_permission_def table_ok_iff distinct_map_filter)

lemma table_ok_distinct: "table_ok s \<Longrightarrow> distinct (permissions s)"
  by (simp add: table_ok_iff distinct_map)

lemma table_ok_pk:
  "table_ok s \<Longrightarrow> r \<in> set (permissions s) \<Longrightarrow> \<exists>i. pk r = Some i \<and> i < next_pk s"
  by (simp add: table_ok_iff)

lemma table_ok_same_pk:
  assumes "table_ok s" and "r \<in> set (permissions s)" and "r' \<in> set (permissions s)"
    and "pk r = pk r'"
  shows "r = r'"
proof -
  from assms(1) have "inj_on pk (set (permissions s))"
    by (simp add: table_ok_iff distinct_map)
  from this assms(4,2,3) show ?thesis by (rule inj_onD)
qed

lemma filter_singleton_set:
  assumes "filter P xs = [a]"
  shows "a \<in> set xs \<and> P a \<and> (\<forall>x \<in> set xs. P x \<longrightarrow> x = a)"
proof -
  from assms have "set (filter P xs) = {a}" by simp
  then show ?thesis by auto
qed

lemma distinct_set_singleton:
  assumes "distinct ys" and "set ys = {a}"
  shows "ys = [a]"
proof (cases ys)
  case Nil
  with assms(2) show ?thesis by simp
next
  case (Cons y zs)
  with assms(2) have y: "y = a" and sub: "set zs \<subseteq> {a}" by auto
  from Cons assms(1) y have na: "a \<notin> set zs" by simp
  have "zs = []"
  proof (cases zs)
    case Nil
    then show ?thesis .
  next
    case (Cons z zs')
    with sub have "z = a" by simp
    with na Cons show ?thesis by simp
  qed
  with Cons y show ?thesis by simp
qed

lemma distinct_singleton_filter:
  assumes "distinct xs" and "a \<in> set xs" and "P a" and "\<forall>x \<in> set xs. P x \<longrightarrow> x = a"
  shows "filter P xs = [a]"
proof (rule distinct_set_singleton)
  from assms(1) show "distinct (filter P xs)" by simp
  show "set (filter P xs) = {a}"
  proof (intro equalityI subsetI)
    fix x assume "x \<in> set (filter P xs)"
    then have "x \<in> set xs" "P x" by simp_all
    with assms(4) have "x = a" by blast
    then show "x \<in> {a}" by simp
  next
    fix x assume "x \<in> {a}"
    then have "x = a" by simp
    with assms(2,3) show "x \<in> set (filter P xs)" by simp
  qed
qed

subsection \<open>Invitations: the token is good for one acceptance\<close>


lemma qs_first_single: "qs_first key [x] = Some x"
  by (simp add: qs_first_def)

lemma qs_first_None: "qs_first key xs = None \<longleftrightarrow> xs = []"
  by (cases xs) (simp_all add: qs_first_def)

lemma InvitationView_object_Inr:
  "InvitationView_object tbl code = Inr p \<Longrightarrow>
     filter (\<lambda>r. iexact (invitation_token r) code \<and> user r = None) tbl = [p]"
  by (auto simp: InvitationView_object_def split: list.splits)




lemmas invitation_eval =
  InvitationView_form_valid_def InvitationView_object_def bind_user_def merge_flags_def iexact_def
  save_permission_def delete_permission_def qs_first_def pk_key_def auth_problem_text_def
  table_ok_def user_permissions_def Let_def

lemmas invitation_examples =
  alice_def bob_def alice_perm_def bob_perm_def open_invitation_def invited_state_def
  login_as_def team_request_def






subsection \<open>Invitations: merging with the permission the user already has\<close>

lemma bind_user_result:
  "\<exists>p' s1.
     save_permission (p\<lparr>user := Some (user_pk usr)\<rparr>) s = (p', s1)
     \<and> bind_user ev p usr s =
         (Redirect (Orga_base ev),
          s1\<lparr>action_log := action_log s1 @ [(''pretalx.invite.orga.accept'', Some (user_pk usr))],
             messages := messages s1 @ [(INFO, Text ''You are now part of the event team!'')],
             logged_in := Some (user_pk usr)\<rparr>)"
  by (cases "save_permission (p\<lparr>user := Some (user_pk usr)\<rparr>) s")
     (simp add: bind_user_def)

lemma bind_user_table_ok:
  assumes "bind_user ev p usr s = (resp, s')" and "table_ok s"
    and "\<And>i. pk p = Some i \<Longrightarrow> i < next_pk s"
  shows "table_ok s'"
proof -
  from bind_user_result [where p = p and usr = usr and s = s and ev = ev] obtain p' s1 where
    sv: "save_permission (p\<lparr>user := Some (user_pk usr)\<rparr>) s = (p', s1)"
    and b: "bind_user ev p usr s =
         (Redirect (Orga_base ev),
          s1\<lparr>action_log := action_log s1 @ [(''pretalx.invite.orga.accept'', Some (user_pk usr))],
             messages := messages s1 @ [(INFO, Text ''You are now part of the event team!'')],
             logged_in := Some (user_pk usr)\<rparr>)"
    by blast
  from assms(3) have "\<And>i. pk (p\<lparr>user := Some (user_pk usr)\<rparr>) = Some i \<Longrightarrow> i < next_pk s"
    by simp
  from save_permission_table_ok [OF sv assms(2) this] have "table_ok s1" .
  with assms(1) b show ?thesis
    by (auto simp: table_ok_iff)
qed

lemma bind_user_mem:
  assumes "bind_user ev p usr s = (resp, s')" and "pk p \<noteq> None"
  shows "p\<lparr>user := Some (user_pk usr)\<rparr> \<in> set (permissions s')"
proof -
  from bind_user_result [where p = p and usr = usr and s = s and ev = ev] obtain p' s1 where
    sv: "save_permission (p\<lparr>user := Some (user_pk usr)\<rparr>) s = (p', s1)"
    and b: "bind_user ev p usr s =
         (Redirect (Orga_base ev),
          s1\<lparr>action_log := action_log s1 @ [(''pretalx.invite.orga.accept'', Some (user_pk usr))],
             messages := messages s1 @ [(INFO, Text ''You are now part of the event team!'')],
             logged_in := Some (user_pk usr)\<rparr>)"
    by blast
  from sv assms(2) have "p' = p\<lparr>user := Some (user_pk usr)\<rparr>"
    by (auto simp: save_permission_def split: option.splits if_splits)
  with save_permission_mem [OF sv] assms(1) b show ?thesis
    by auto
qed

lemma bind_user_set_pk:
  assumes "bind_user ev p usr s = (resp, s')" and "r \<in> set (permissions s')" and "pk p \<noteq> None"
  shows "r = p\<lparr>user := Some (user_pk usr)\<rparr> \<or> (r \<in> set (permissions s) \<and> pk r \<noteq> pk p)"
proof -
  from bind_user_result [where p = p and usr = usr and s = s and ev = ev] obtain p' s1 where
    sv: "save_permission (p\<lparr>user := Some (user_pk usr)\<rparr>) s = (p', s1)"
    and b: "bind_user ev p usr s =
         (Redirect (Orga_base ev),
          s1\<lparr>action_log := action_log s1 @ [(''pretalx.invite.orga.accept'', Some (user_pk usr))],
             messages := messages s1 @ [(INFO, Text ''You are now part of the event team!'')],
             logged_in := Some (user_pk usr)\<rparr>)"
    by blast
  from sv assms(3) have p': "p' = p\<lparr>user := Some (user_pk usr)\<rparr>"
    by (auto simp: save_permission_def split: option.splits if_splits)
  from assms(1,2) b have "r \<in> set (permissions s1)" by auto
  from save_permission_set [OF sv this] p' assms(3) show ?thesis
    by auto
qed

lemma other_permissions_eq:
  assumes ok: "table_ok s" and P: "P \<in> set (permissions s)" and uP: "user P = None"
  shows "filter (\<lambda>r. user r = Some u \<and> event r = e \<and> pk r \<noteq> pk P) (permissions s)
       = user_permissions e u (permissions s)"
  unfolding user_permissions_def
proof (rule filter_cong [OF refl])
  fix r assume r: "r \<in> set (permissions s)"
  have "user r = Some u \<Longrightarrow> pk r \<noteq> pk P"
  proof
    assume u: "user r = Some u" and "pk r = pk P"
    with table_ok_same_pk [OF ok r P] have "r = P" by simp
    with u uP show False by simp
  qed
  then show "(user r = Some u \<and> event r = e \<and> pk r \<noteq> pk P) = (event r = e \<and> user r = Some u)"
    by blast
qed

text \<open>
  C2, as the code has it.  An invitation \<open>P\<close> (a row without user, found by its
  token) is accepted by the user \<open>U\<close>.  When \<open>U\<close> holds exactly one other
  permission \<open>Q\<close> for the event of \<open>P\<close>, the view answers with the redirect to the
  organiser pages, the one row of \<open>U\<close> for that event afterwards is \<open>Q\<close> with
  \<open>is_orga\<close> set iff it was set in \<open>P\<close> or in \<open>Q\<close> and \<open>is_reviewer\<close> likewise, and
  no row with the primary key of \<open>P\<close> is left.  When \<open>U\<close> holds no permission for
  the event, \<open>P\<close> itself gets the user \<open>U\<close> and is the one row of \<open>U\<close> for the
  event.
\<close>

theorem invitation_accept_merges:
  assumes ok: "table_ok s"
    and obj: "InvitationView_object (permissions s) code = Inr P"
    and usr: "qs_first user_pk
                (filter (\<lambda>u. Some (user_pk u) = user_id form) (save_users form (users s))) = Some U"
  shows
    "(user_permissions (event P) (user_pk U) (permissions s) = [Q] \<longrightarrow>
        (\<exists>s'. InvitationView_form_valid rq code form s = Inr (Redirect (Orga_base (event P)), s')
           \<and> user_permissions (event P) (user_pk U) (permissions s') =
               [Q\<lparr>is_orga := is_orga P \<or> is_orga Q, is_reviewer := is_reviewer P \<or> is_reviewer Q\<rparr>]
           \<and> (\<forall>r \<in> set (permissions s'). pk r \<noteq> pk P)))
     \<and> (user_permissions (event P) (user_pk U) (permissions s) = [] \<longrightarrow>
        (\<exists>s'. InvitationView_form_valid rq code form s = Inr (Redirect (Orga_base (event P)), s')
           \<and> P\<lparr>user := Some (user_pk U)\<rparr> \<in> set (permissions s')
           \<and> user_permissions (event P) (user_pk U) (permissions s') = [P\<lparr>user := Some (user_pk U)\<rparr>]))"
proof -
  let ?s0 = "s\<lparr>users := save_users form (users s)\<rparr>"
  let ?u = "user_pk U"
  let ?K = "\<lambda>r. event r = event P \<and> user r = Some ?u"
  have ok0: "table_ok ?s0" using ok by (simp add: table_ok_iff)
  have perms0: "permissions ?s0 = permissions s" by simp
  from filter_singleton_set [OF InvitationView_object_Inr [OF obj]]
  have P: "P \<in> set (permissions s)" and uP: "user P = None" by blast+
  from table_ok_pk [OF ok P] obtain i where pkP: "pk P = Some i" and i: "i < next_pk s" by blast
  note others = other_permissions_eq [OF ok P uP, of ?u "event P"]
  have M: "user_permissions (event P) ?u (permissions s) = [Q] \<longrightarrow>
        (\<exists>s'. InvitationView_form_valid rq code form s = Inr (Redirect (Orga_base (event P)), s')
           \<and> user_permissions (event P) ?u (permissions s') =
               [Q\<lparr>is_orga := is_orga P \<or> is_orga Q, is_reviewer := is_reviewer P \<or> is_reviewer Q\<rparr>]
           \<and> (\<forall>r \<in> set (permissions s'). pk r \<noteq> pk P))"
  proof
    assume one: "user_permissions (event P) ?u (permissions s) = [Q]"
    define q2 where "q2 = Q\<lparr>is_orga := is_orga P \<or> is_orga Q, is_reviewer := is_reviewer P \<or> is_reviewer Q\<rparr>"
    have q2_eq: "merge_flags P Q = q2"
      by (cases Q) (simp add: q2_def merge_flags_def Let_def)
    from filter_singleton_set [OF one [unfolded user_permissions_def]]
    have Q: "Q \<in> set (permissions s)" and KQ: "?K Q"
      and onlyQ: "\<forall>x \<in> set (permissions s). ?K x \<longrightarrow> x = Q"
      by blast+
    from table_ok_pk [OF ok Q] obtain j where pkQ: "pk Q = Some j" and j: "j < next_pk s" by blast
    from KQ uP have QP: "Q \<noteq> P" by auto
    with table_ok_same_pk [OF ok Q P] have ji: "pk Q \<noteq> pk P" by blast
    have pkq2: "pk q2 = Some j" and uq2: "user q2 = Some ?u" and eq2: "event q2 = event P"
      using pkQ KQ by (simp_all add: q2_def)
    have bq2: "q2\<lparr>user := Some ?u\<rparr> = q2"
      using uq2 by (cases q2) simp
    from one others have perm: "qs_first pk_key
        (filter (\<lambda>r. user r = Some ?u \<and> event r = event P \<and> pk r \<noteq> pk P) (permissions ?s0))
        = Some Q"
      by (simp add: qs_first_single)
    obtain q3 s1 where sv: "save_permission q2 ?s0 = (q3, s1)"
      by (cases "save_permission q2 ?s0") auto
    from sv pkq2 have q3: "q3 = q2"
      by (auto simp: save_permission_def split: if_splits)
    have ok1: "table_ok s1"
      using save_permission_table_ok [OF sv ok0] pkq2 j by simp
    from save_permission_frame [OF sv] j have j1: "j < next_pk s1" by simp
    define s2 where "s2 = s1\<lparr>permissions := filter (\<lambda>r. pk r \<noteq> Some i) (permissions s1)\<rparr>"
    have del: "delete_permission P s1 = Inr s2"
      by (simp add: delete_permission_def pkP s2_def)
    have ok2: "table_ok s2"
      by (rule delete_permission_table_ok [OF del ok1])
    from delete_permission_frame [OF del] j1 have j2: "j < next_pk s2" by simp
    obtain resp s' where b: "bind_user (event P) q2 U s2 = (resp, s')"
      by (cases "bind_user (event P) q2 U s2") auto
    from bind_user_result [where p = q2 and usr = U and s = s2 and ev = "event P"] b
    have resp: "resp = Redirect (Orga_base (event P))" by auto
    have fv: "InvitationView_form_valid rq code form s = Inr (Redirect (Orga_base (event P)), s')"
      using obj usr perm sv del b resp
      by (simp add: InvitationView_form_valid_def Let_def q2_eq q3)
    have ok': "table_ok s'"
      using bind_user_table_ok [OF b ok2] pkq2 j2 by simp
    have mem: "q2 \<in> set (permissions s')"
      using bind_user_mem [OF b] pkq2 bq2 by simp
    have origin: "x = q2 \<or> (x \<in> set (permissions s) \<and> pk x \<noteq> pk Q \<and> pk x \<noteq> pk P)"
      if x: "x \<in> set (permissions s')" for x
    proof -
      from bind_user_set_pk [OF b x] pkq2 bq2 pkQ
      consider "x = q2" | "x \<in> set (permissions s2)" "pk x \<noteq> pk Q" by auto
      then show ?thesis
      proof cases
        case 1
        then show ?thesis by simp
      next
        case 2
        from 2(1) delete_permission_set [OF del]
        have x1: "x \<in> set (permissions s1)" and xP: "pk x \<noteq> pk P" by auto
        from save_permission_set [OF sv x1] q3 have "x = q2 \<or> x \<in> set (permissions s)"
          by auto
        with 2(2) xP show ?thesis by auto
      qed
    qed
    have only': "\<forall>x \<in> set (permissions s'). ?K x \<longrightarrow> x = q2"
    proof (intro ballI impI)
      fix x assume x: "x \<in> set (permissions s')" and K: "?K x"
      from origin [OF x] show "x = q2"
      proof
        assume "x = q2" then show ?thesis .
      next
        assume h: "x \<in> set (permissions s) \<and> pk x \<noteq> pk Q \<and> pk x \<noteq> pk P"
        with K onlyQ have "x = Q" by blast
        with h show ?thesis by simp
      qed
    qed
    have "filter ?K (permissions s') = [q2]"
      by (rule distinct_singleton_filter [OF table_ok_distinct [OF ok'] mem _ only'])
         (simp add: uq2 eq2)
    then have one': "user_permissions (event P) ?u (permissions s') = [q2]"
      by (simp add: user_permissions_def)
    have gone: "\<forall>r \<in> set (permissions s'). pk r \<noteq> pk P"
    proof
      fix r assume "r \<in> set (permissions s')"
      from origin [OF this] ji pkq2 pkQ show "pk r \<noteq> pk P" by auto
    qed
    from fv one' gone show "\<exists>s'. InvitationView_form_valid rq code form s
           = Inr (Redirect (Orga_base (event P)), s')
        \<and> user_permissions (event P) ?u (permissions s') =
            [Q\<lparr>is_orga := is_orga P \<or> is_orga Q, is_reviewer := is_reviewer P \<or> is_reviewer Q\<rparr>]
        \<and> (\<forall>r \<in> set (permissions s'). pk r \<noteq> pk P)"
      unfolding q2_def by blast
  qed
  have N: "user_permissions (event P) ?u (permissions s) = [] \<longrightarrow>
        (\<exists>s'. InvitationView_form_valid rq code form s = Inr (Redirect (Orga_base (event P)), s')
           \<and> P\<lparr>user := Some ?u\<rparr> \<in> set (permissions s')
           \<and> user_permissions (event P) ?u (permissions s') = [P\<lparr>user := Some ?u\<rparr>])"
  proof
    assume none: "user_permissions (event P) ?u (permissions s) = []"
    then have noK: "\<forall>x \<in> set (permissions s). \<not> ?K x"
      by (simp add: user_permissions_def filter_empty_conv)
    from none others have perm: "qs_first pk_key
        (filter (\<lambda>r. user r = Some ?u \<and> event r = event P \<and> pk r \<noteq> pk P) (permissions ?s0))
        = None"
      by (simp add: qs_first_None)
    obtain resp s' where b: "bind_user (event P) P U ?s0 = (resp, s')"
      by (cases "bind_user (event P) P U ?s0") auto
    from bind_user_result [where p = P and usr = U and s = ?s0 and ev = "event P"] b
    have resp: "resp = Redirect (Orga_base (event P))" by auto
    have fv: "InvitationView_form_valid rq code form s = Inr (Redirect (Orga_base (event P)), s')"
      using obj usr perm b resp
      by (simp add: InvitationView_form_valid_def Let_def)
    have ok': "table_ok s'"
      using bind_user_table_ok [OF b ok0] pkP i by simp
    have mem: "P\<lparr>user := Some ?u\<rparr> \<in> set (permissions s')"
      using bind_user_mem [OF b] pkP by simp
    have only': "\<forall>x \<in> set (permissions s'). ?K x \<longrightarrow> x = P\<lparr>user := Some ?u\<rparr>"
    proof (intro ballI impI)
      fix x assume x: "x \<in> set (permissions s')" and K: "?K x"
      from bind_user_set_pk [OF b x] pkP
      have "x = P\<lparr>user := Some ?u\<rparr> \<or> x \<in> set (permissions s)" by auto
      with K noK show "x = P\<lparr>user := Some ?u\<rparr>" by blast
    qed
    have "filter ?K (permissions s') = [P\<lparr>user := Some ?u\<rparr>]"
      by (rule distinct_singleton_filter [OF table_ok_distinct [OF ok'] mem _ only']) simp
    then have "user_permissions (event P) ?u (permissions s') = [P\<lparr>user := Some ?u\<rparr>]"
      by (simp add: user_permissions_def)
    with fv mem show "\<exists>s'. InvitationView_form_valid rq code form s
           = Inr (Redirect (Orga_base (event P)), s')
        \<and> P\<lparr>user := Some ?u\<rparr> \<in> set (permissions s')
        \<and> user_permissions (event P) ?u (permissions s') = [P\<lparr>user := Some ?u\<rparr>]"
      by blast
  qed
  from M N show ?thesis by (rule conjI)
qed

text \<open>
  The witness: the user with key 2 is reviewer of event 1 and accepts an invitation as
  organiser; his one row is then organiser and reviewer, and the invitation (key 3) is
  gone.  Without the reviewer row, the invitation itself becomes his row.
\<close>

theorem invitation_accept_merges_witness:
  "table_ok (invited_state [alice_perm, bob_perm, open_invitation])
   \<and> InvitationView_object (permissions (invited_state [alice_perm, bob_perm, open_invitation]))
        ''abcdef'' = Inr open_invitation
   \<and> user_permissions 1 2 (permissions (invited_state [alice_perm, bob_perm, open_invitation]))
        = [bob_perm]
   \<and> (\<exists>s'. InvitationView_form_valid team_request ''abcdef'' (login_as 2)
               (invited_state [alice_perm, bob_perm, open_invitation])
             = Inr (Redirect (Orga_base 1), s')
          \<and> user_permissions 1 2 (permissions s')
             = [bob_perm\<lparr>is_orga := True, is_reviewer := True\<rparr>]
          \<and> (\<forall>r \<in> set (permissions s'). pk r \<noteq> Some 3))
   \<and> user_permissions 1 2 (permissions (invited_state [alice_perm, open_invitation])) = []
   \<and> (\<exists>s'. InvitationView_form_valid team_request ''abcdef'' (login_as 2)
               (invited_state [alice_perm, open_invitation])
             = Inr (Redirect (Orga_base 1), s')
          \<and> user_permissions 1 2 (permissions s') = [open_invitation\<lparr>user := Some 2\<rparr>])"
proof -
  let ?s1 = "invited_state [alice_perm, bob_perm, open_invitation]"
  let ?s2 = "invited_state [alice_perm, open_invitation]"
  have ok1: "table_ok ?s1" and ok2: "table_ok ?s2"
    by code_simp+
  have obj1: "InvitationView_object (permissions ?s1) ''abcdef'' = Inr open_invitation"
    and obj2: "InvitationView_object (permissions ?s2) ''abcdef'' = Inr open_invitation"
    by code_simp+
  have u1: "qs_first user_pk (filter (\<lambda>u. Some (user_pk u) = user_id (login_as 2))
              (save_users (login_as 2) (users ?s1))) = Some bob"
    and u2: "qs_first user_pk (filter (\<lambda>u. Some (user_pk u) = user_id (login_as 2))
              (save_users (login_as 2) (users ?s2))) = Some bob"
    by code_simp+
  have e: "event open_invitation = 1" "user_pk bob = 2" "pk open_invitation = Some 3"
    "is_orga open_invitation" "\<not> is_reviewer open_invitation" "is_reviewer bob_perm"
    by (simp_all add: open_invitation_def bob_def bob_perm_def)
  have h1: "user_permissions 1 2 (permissions ?s1) = [bob_perm]"
    and h2: "user_permissions 1 2 (permissions ?s2) = []"
    by code_simp+
  note t1 = invitation_accept_merges [OF ok1 obj1 u1, where Q = bob_perm and rq = team_request]
  note t2 = invitation_accept_merges [OF ok2 obj2 u2, where Q = bob_perm and rq = team_request]
  from t1 h1 have r1: "\<exists>s'. InvitationView_form_valid team_request ''abcdef'' (login_as 2) ?s1
             = Inr (Redirect (Orga_base 1), s')
          \<and> user_permissions 1 2 (permissions s')
             = [bob_perm\<lparr>is_orga := True, is_reviewer := True\<rparr>]
          \<and> (\<forall>r \<in> set (permissions s'). pk r \<noteq> Some 3)"
    by (simp add: e)
  from t2 h2 have r2: "\<exists>s'. InvitationView_form_valid team_request ''abcdef'' (login_as 2) ?s2
             = Inr (Redirect (Orga_base 1), s')
          \<and> user_permissions 1 2 (permissions s') = [open_invitation\<lparr>user := Some 2\<rparr>]"
    by (auto simp: e)
  from ok1 obj1 h1 r1 h2 r2 show ?thesis by blast
qed

text \<open>
  C2 as it is worded fails where the user holds two other permissions for the event:
  the first is merged with the invitation, the second stays, and two rows remain.
\<close>

theorem invitation_accept_two_rows_remain:
  "table_ok two_state
   \<and> InvitationView_object (permissions two_state) ''abcdef'' = Inr open_invitation
   \<and> user open_invitation = None \<and> event open_invitation = 1
   \<and> user_permissions 1 2 (permissions two_state) = [bob_perm, bob_second]
   \<and> InvitationView_form_valid team_request ''abcdef'' (login_as 2) two_state =
       Inr (Redirect (Orga_base 1),
            two_state\<lparr>permissions := [alice_perm, bob_perm\<lparr>is_orga := True\<rparr>, bob_second],
                      action_log := [(''pretalx.invite.orga.accept'', Some 2)],
                      messages := [(INFO, Text ''You are now part of the event team!'')],
                      logged_in := Some 2\<rparr>)
   \<and> user_permissions 1 2 [alice_perm, bob_perm\<lparr>is_orga := True\<rparr>, bob_second]
       = [bob_perm\<lparr>is_orga := True\<rparr>, bob_second]
   \<and> bob_perm\<lparr>is_orga := True\<rparr> \<noteq> bob_second"
  by (intro conjI; code_simp)

subsection \<open>Team settings: the loops of the handler\<close>

lemma keys_ok_iff:
  "keys_ok n ps \<longleftrightarrow> (\<forall>p \<in> set ps. \<forall>i. pk p = Some i \<longrightarrow> i < n)"
proof -
  have "(pk p = None \<or> pk_key p < n) = (\<forall>i. pk p = Some i \<longrightarrow> i < n)" for p
    by (cases "pk p") (simp_all add: pk_key_def)
  then show ?thesis
    unfolding keys_ok_def by blast
qed

lemma one_per_user_iff:
  "one_per_user tbl \<longleftrightarrow> (\<forall>e u. length (user_permissions e u tbl) \<le> 1)"
proof
  assume h: "one_per_user tbl"
  show "\<forall>e u. length (user_permissions e u tbl) \<le> 1"
  proof (intro allI)
    fix e u
    show "length (user_permissions e u tbl) \<le> 1"
    proof (cases "user_permissions e u tbl")
      case Nil
      then show ?thesis by simp
    next
      case (Cons r rs)
      then have "r \<in> set (user_permissions e u tbl)" by simp
      then have r: "r \<in> set tbl" "event r = e" "user r = Some u"
        by (simp_all add: user_permissions_def)
      with h have "length (user_permissions (event r) (the (user r)) tbl) \<le> 1"
        unfolding one_per_user_def by fastforce
      with r show ?thesis by simp
    qed
  qed
next
  assume "\<forall>e u. length (user_permissions e u tbl) \<le> 1"
  then show "one_per_user tbl"
    unfolding one_per_user_def by blast
qed

lemma length_filter_filter_le:
  "length (filter K (filter Q xs)) \<le> length (filter K xs)"
  by (induction xs) auto

lemma length_filter_replace_le:
  "\<not> K p \<Longrightarrow> length (filter K (map (\<lambda>r. if c r then p else r) xs)) \<le> length (filter K xs)"
  by (induction xs) auto

lemma length_filter_le_one:
  assumes "distinct (map f xs)" and "\<forall>x \<in> set xs. K x \<longrightarrow> f x = c"
  shows "length (filter K xs) \<le> 1"
proof -
  let ?ys = "map f (filter K xs)"
  from assms(1) have d: "distinct ?ys" by (rule distinct_map_filter)
  from assms(2) have "set ?ys \<subseteq> {c}" by auto
  then have "card (set ?ys) \<le> card {c}" by (intro card_mono) simp_all
  with distinct_card [OF d] show ?thesis by simp
qed

lemma save_permission_count:
  assumes "save_permission p s = (p', s')" and "\<not> K p'"
  shows "length (filter K (permissions s')) \<le> length (filter K (permissions s))"
proof (cases "pk p")
  case None
  with assms show ?thesis
    by (auto simp: save_permission_def Let_def)
next
  case (Some i)
  with assms(1) have p': "p' = p"
    by (auto simp: save_permission_def split: if_splits)
  show ?thesis
  proof (cases "\<exists>r \<in> set (permissions s). pk r = Some i")
    case True
    with Some assms(1) have ps: "permissions s' =
        map (\<lambda>r. if pk r = Some i then p else r) (permissions s)"
      by (auto simp: save_permission_def)
    from assms(2) p' have "\<not> K p" by simp
    then show ?thesis
      unfolding ps by (rule length_filter_replace_le)
  next
    case False
    with Some assms(1) have "permissions s' = permissions s @ [p]"
      by (auto simp: save_permission_def)
    with assms(2) p' show ?thesis by simp
  qed
qed

lemma delete_loop_props:
  "delete_loop ps s = Inr s' \<Longrightarrow> table_ok s \<Longrightarrow>
     table_ok s' \<and> next_pk s' = next_pk s \<and> users s' = users s
     \<and> length (filter K (permissions s')) \<le> length (filter K (permissions s))"
proof (induction ps arbitrary: s)
  case Nil
  then show ?case by simp
next
  case (Cons p ps)
  from Cons.prems(1) obtain s1 where d: "delete_permission p s = Inr s1"
    and rest: "delete_loop ps s1 = Inr s'"
    by (cases "delete_permission p s") auto
  from delete_permission_table_ok [OF d Cons.prems(2)] have ok1: "table_ok s1" .
  from d obtain a where ps1: "permissions s1 = filter (\<lambda>r. pk r \<noteq> Some a) (permissions s)"
    by (cases "pk p") (auto simp: delete_permission_def)
  have "length (filter K (permissions s1)) \<le> length (filter K (permissions s))"
    unfolding ps1 by (rule length_filter_filter_le)
  with Cons.IH [OF rest ok1] delete_permission_frame [OF d] show ?case
    by simp
qed

lemma invite_step_save:
  assumes "invite_step en rq p mails s = Inr (p', mails', s')"
  shows "\<exists>s1. permissions s1 = permissions s \<and> next_pk s1 = next_pk s \<and> users s1 = users s
           \<and> save_permission (saved_form (users s) p) s1 = (p', s')"
proof (cases "truthy (invitation_email p)")
  case True
  let ?p1 = "attach_user (users s) p"
  let ?s1 = "s\<lparr>action_log := action_log s @ [(''pretalx.invite.orga.send'', Some (req_user rq))],
               messages := messages s @ [(SUCCESS, invited_text (invitation_email ?p1))]\<rparr>"
  from assms True have "save_permission ?p1 ?s1 = (p', s')"
    by (cases "send_invite_email en ?p1 s")
       (auto simp: invite_step_def Let_def split: prod.splits)
  with True show ?thesis
    by (intro exI [of _ ?s1]) (simp add: saved_form_def)
next
  case False
  with assms have "save_permission p s = (p', s')"
    by (auto simp: invite_step_def Let_def split: prod.splits)
  with False show ?thesis
    by (intro exI [of _ s]) (simp add: saved_form_def)
qed

lemma attach_user_keys:
  "pk (attach_user us p) = pk p \<and> event (attach_user us p) = event p"
  by (simp add: attach_user_def split: option.splits)

lemma saved_form_keys:
  "pk (saved_form us p) = pk p \<and> event (saved_form us p) = event p"
  by (simp add: saved_form_def attach_user_keys)

lemma invite_step_props:
  assumes st: "invite_step en rq p mails s = Inr (p', mails', s')"
  shows "event p' = event p \<and> user p' = user (saved_form (users s) p)
         \<and> users s' = users s \<and> next_pk s \<le> next_pk s'
         \<and> (table_ok s \<and> (\<forall>i. pk p = Some i \<longrightarrow> i < next_pk s) \<longrightarrow> table_ok s')
         \<and> (\<not> K p' \<longrightarrow> length (filter K (permissions s')) \<le> length (filter K (permissions s)))"
proof -
  from invite_step_save [OF st] obtain s1 where
    s1: "permissions s1 = permissions s" "next_pk s1 = next_pk s" "users s1 = users s"
    and sv: "save_permission (saved_form (users s) p) s1 = (p', s')"
    by blast
  from save_permission_fields [OF sv]
  have f: "p' = (saved_form (users s) p)\<lparr>pk := pk p'\<rparr>" by simp
  have e: "event p' = event p"
    by (subst f) (simp add: saved_form_keys)
  have u: "user p' = user (saved_form (users s) p)"
    by (subst f) simp
  from save_permission_frame [OF sv] s1
  have fr: "users s' = users s" "next_pk s \<le> next_pk s'" by simp_all
  have t: "table_ok s \<and> (\<forall>i. pk p = Some i \<longrightarrow> i < next_pk s) \<longrightarrow> table_ok s'"
  proof
    assume h: "table_ok s \<and> (\<forall>i. pk p = Some i \<longrightarrow> i < next_pk s)"
    with s1 have "table_ok s1" by (simp add: table_ok_iff)
    moreover from h s1 have "\<And>i. pk (saved_form (users s) p) = Some i \<Longrightarrow> i < next_pk s1"
      by (simp add: saved_form_keys)
    ultimately show "table_ok s'"
      by (rule save_permission_table_ok [OF sv])
  qed
  have c: "\<not> K p' \<longrightarrow> length (filter K (permissions s')) \<le> length (filter K (permissions s))"
    using save_permission_count [OF sv, of K] s1 by simp
  from e u fr t c show ?thesis by simp
qed

lemma invite_loop_props:
  "invite_loop en rq ps mails s = Inr (ps', mails', s') \<Longrightarrow> table_ok s \<Longrightarrow>
   keys_ok (next_pk s) ps \<Longrightarrow>
     table_ok s' \<and> users s' = users s
     \<and> map (\<lambda>p. (event p, user p)) ps' = map (\<lambda>p. (event p, user (saved_form (users s) p))) ps
     \<and> ((\<forall>p \<in> set ps'. \<not> K p) \<longrightarrow>
          length (filter K (permissions s')) \<le> length (filter K (permissions s)))"
proof (induction ps arbitrary: mails s ps')
  case Nil
  then show ?case by simp
next
  case (Cons p ps)
  from Cons.prems(1) obtain p1 m1 s1 where st: "invite_step en rq p mails s = Inr (p1, m1, s1)"
    by (cases "invite_step en rq p mails s") auto
  with Cons.prems(1) obtain qs where
    rest: "invite_loop en rq ps m1 s1 = Inr (qs, mails', s')" and ps': "ps' = p1 # qs"
    by (cases "invite_loop en rq ps m1 s1") auto
  note sp = invite_step_props [OF st, of K]
  from Cons.prems(3) have kp: "\<forall>i. pk p = Some i \<longrightarrow> i < next_pk s"
    and kps: "keys_ok (next_pk s) ps"
    by (simp_all add: keys_ok_iff)
  from sp Cons.prems(2) kp have ok1: "table_ok s1" by blast
  from sp have le: "next_pk s \<le> next_pk s1" by blast
  from kps le have kps1: "keys_ok (next_pk s1) ps"
    unfolding keys_ok_iff by (meson less_le_trans)
  note ih = Cons.IH [OF rest ok1 kps1]
  from sp have u1: "users s1 = users s" by blast
  have a: "table_ok s'" using ih by blast
  have b: "users s' = users s" using ih u1 by simp
  have c: "map (\<lambda>p. (event p, user p)) ps'
         = map (\<lambda>p. (event p, user (saved_form (users s) p))) (p # ps)"
    using ih sp u1 by (simp add: ps')
  have d: "(\<forall>q \<in> set ps'. \<not> K q) \<longrightarrow>
          length (filter K (permissions s')) \<le> length (filter K (permissions s))"
  proof
    assume h: "\<forall>q \<in> set ps'. \<not> K q"
    then have "\<not> K p1" and "\<forall>q \<in> set qs. \<not> K q" by (simp_all add: ps')
    with sp ih have "length (filter K (permissions s1)) \<le> length (filter K (permissions s))"
      and "length (filter K (permissions s')) \<le> length (filter K (permissions s1))"
      by blast+
    then show "length (filter K (permissions s')) \<le> length (filter K (permissions s))"
      by (rule order_trans [rotated])
  qed
  from a b c d show ?case by blast
qed

lemma dedup_step_filter:
  "dedup_step p tbl =
     filter (\<lambda>r. user p = None \<or> \<not> (event r = event p \<and> user r = user p \<and> pk r \<noteq> pk p)) tbl"
  by (cases "user p") (simp_all add: dedup_step_def)

lemma dedup_loop_filter:
  "\<exists>Q. dedup_loop ps tbl = filter Q tbl"
proof (induction ps arbitrary: tbl)
  case Nil
  show ?case by (rule exI [of _ "\<lambda>_. True"]) simp
next
  case (Cons p ps)
  let ?Q1 = "\<lambda>r. user p = None \<or> \<not> (event r = event p \<and> user r = user p \<and> pk r \<noteq> pk p)"
  from Cons.IH [of "dedup_step p tbl"] obtain Q2 where
    "dedup_loop ps (dedup_step p tbl) = filter Q2 (dedup_step p tbl)" by blast
  then have "dedup_loop (p # ps) tbl = filter (\<lambda>x. ?Q1 x \<and> Q2 x) tbl"
    by (simp add: dedup_step_filter [of p tbl])
  then show ?case by (rule exI [of _ "\<lambda>x. ?Q1 x \<and> Q2 x"])
qed

lemma dedup_loop_only:
  "r \<in> set (dedup_loop ps tbl) \<Longrightarrow> p \<in> set ps \<Longrightarrow> user p = Some u \<Longrightarrow>
     event r = event p \<Longrightarrow> user r = Some u \<Longrightarrow> pk r = pk p"
proof (induction ps arbitrary: tbl)
  case Nil
  then show ?case by simp
next
  case (Cons q ps)
  from Cons.prems(1) have r: "r \<in> set (dedup_loop ps (dedup_step q tbl))" by simp
  show ?case
  proof (cases "p = q")
    case True
    from dedup_loop_filter [of ps "dedup_step q tbl"] r
    have "r \<in> set (dedup_step q tbl)" by auto
    with True Cons.prems(3,4,5) show ?thesis
      by (auto simp: dedup_step_def)
  next
    case False
    with Cons.prems(2) have "p \<in> set ps" by simp
    from Cons.IH [OF r this Cons.prems(3,4,5)] show ?thesis .
  qed
qed

lemma send_loop_permissions:
  "send_loop en ms s = Inr s' \<Longrightarrow> permissions s' = permissions s"
proof (induction ms arbitrary: s)
  case Nil
  then show ?case by simp
next
  case (Cons m ms)
  then show ?case
    by (cases "send_raises en m") auto
qed

text \<open>What a POST that got past both checks leaves in the permission table.\<close>

lemma EventTeam_post_saved:
  assumes post: "EventTeam_post en rq fs s = Inr (resp, s')"
    and v: "is_valid fs" and h: "has_remaining_team fs"
  shows "\<exists>s1 perms' mails s2.
           delete_loop (deleted_objects fs) s = Inr s1
           \<and> invite_loop en rq (formset_save fs) [] s1 = Inr (perms', mails, s2)
           \<and> permissions s' = dedup_loop perms' (permissions s2)"
proof -
  from post have body: "EventTeam_post_body en rq fs s = Inr (resp, s')"
    by (auto simp: EventTeam_post_def atomic_def split: sum.splits)
  from body v h obtain s1 where d: "delete_loop (deleted_objects fs) s = Inr s1"
    by (cases "delete_loop (deleted_objects fs) s") (auto simp: EventTeam_post_body_def)
  from body v h d obtain perms' mails s2 where
    i: "invite_loop en rq (formset_save fs) [] s1 = Inr (perms', mails, s2)"
    by (cases "invite_loop en rq (formset_save fs) [] s1") (auto simp: EventTeam_post_body_def Let_def)
  from body v h d i obtain s4 where
    sl: "send_loop en mails (s2\<lparr>permissions := dedup_loop perms' (permissions s2)\<rparr>) = Inr s4"
    and s': "s' = s4"
    by (cases "send_loop en mails (s2\<lparr>permissions := dedup_loop perms' (permissions s2)\<rparr>)")
       (auto simp: EventTeam_post_body_def Let_def)
  from send_loop_permissions [OF sl] s'
  have "permissions s' = dedup_loop perms' (permissions s2)" by simp
  with d i show ?thesis by blast
qed

lemma EventTeam_post_unchanged:
  assumes post: "EventTeam_post en rq fs s = Inr (resp, s')"
    and n: "\<not> is_valid fs \<or> \<not> has_remaining_team fs"
  shows "resp = Redirect (Team_settings (req_event rq)) \<and> permissions s' = permissions s
         \<and> (\<exists>m. messages s' = messages s @ [(ERROR, m)])"
proof -
  from post have body: "EventTeam_post_body en rq fs s = Inr (resp, s')"
    by (auto simp: EventTeam_post_def atomic_def split: sum.splits)
  with n show ?thesis
    by (auto simp: EventTeam_post_body_def Let_def split: if_splits)
qed

subsection \<open>Team settings: one permission for a user and an event\<close>

text \<open>
  At most one row remains for the event and the user of a saved permission, and a table
  with at most one row for every event and user stays so.
\<close>

lemma EventTeam_post_keeps_one_per_user:
  assumes ok: "table_ok s" and keys: "keys_ok (next_pk s) (formset_save fs)"
    and post: "EventTeam_post en rq fs s = Inr (resp, s')"
  shows "(is_valid fs \<and> has_remaining_team fs \<longrightarrow>
           (\<forall>p \<in> set (formset_save fs). \<forall>u. user (saved_form (users s) p) = Some u \<longrightarrow>
              length (user_permissions (event p) u (permissions s')) \<le> 1))
       \<and> (one_per_user (permissions s) \<longrightarrow> one_per_user (permissions s'))"
proof (cases "is_valid fs \<and> has_remaining_team fs")
  case False
  with EventTeam_post_unchanged [OF post] have "permissions s' = permissions s" by blast
  with False show ?thesis by auto
next
  case True
  then have v: "is_valid fs" and h: "has_remaining_team fs" by simp_all
  from EventTeam_post_saved [OF post v h] obtain s1 perms' mails s2 where
    d: "delete_loop (deleted_objects fs) s = Inr s1"
    and i: "invite_loop en rq (formset_save fs) [] s1 = Inr (perms', mails, s2)"
    and fin: "permissions s' = dedup_loop perms' (permissions s2)"
    by blast
  note dp = delete_loop_props [OF d ok]
  from dp have ok1: "table_ok s1" and n1: "next_pk s1 = next_pk s" and u1: "users s1 = users s"
    by blast+
  from keys n1 have keys1: "keys_ok (next_pk s1) (formset_save fs)" by simp
  note ip = invite_loop_props [OF i ok1 keys1]
  from ip have ok2: "table_ok s2" by blast
  from ip u1 have km: "map (\<lambda>p. (event p, user p)) perms'
      = map (\<lambda>p. (event p, user (saved_form (users s) p))) (formset_save fs)"
    by simp
  from dedup_loop_filter [of perms' "permissions s2"] fin obtain Q where
    Q: "permissions s' = filter Q (permissions s2)" by auto
  from ok2 have "distinct (map pk (permissions s2))" by (simp add: table_ok_iff)
  then have dist: "distinct (map pk (permissions s'))"
    unfolding Q by (rule distinct_map_filter)
  have touched: "length (user_permissions e u (permissions s')) \<le> 1"
    if p': "p' \<in> set perms'" "event p' = e" "user p' = Some u" for p' e u
    unfolding user_permissions_def
  proof (rule length_filter_le_one [OF dist, of _ "pk p'"], intro ballI impI)
    fix x assume x: "x \<in> set (permissions s')" and K: "event x = e \<and> user x = Some u"
    from x fin have "x \<in> set (dedup_loop perms' (permissions s2))" by simp
    from dedup_loop_only [OF this p'(1) p'(3)] K p'(2) show "pk x = pk p'" by simp
  qed
  have A: "\<forall>p \<in> set (formset_save fs). \<forall>u. user (saved_form (users s) p) = Some u \<longrightarrow>
              length (user_permissions (event p) u (permissions s')) \<le> 1"
  proof (intro ballI allI impI)
    fix p u assume p: "p \<in> set (formset_save fs)" and u: "user (saved_form (users s) p) = Some u"
    from p u have "(event p, Some u) \<in> set (map (\<lambda>p. (event p, user (saved_form (users s) p)))
        (formset_save fs))"
      by force
    with km have "(event p, Some u) \<in> set (map (\<lambda>p. (event p, user p)) perms')" by simp
    then obtain p' where "p' \<in> set perms'" "event p' = event p" "user p' = Some u" by auto
    then show "length (user_permissions (event p) u (permissions s')) \<le> 1"
      by (rule touched)
  qed
  have B: "one_per_user (permissions s) \<longrightarrow> one_per_user (permissions s')"
  proof
    assume inv: "one_per_user (permissions s)"
    show "one_per_user (permissions s')"
      unfolding one_per_user_iff
    proof (intro allI)
      fix e u
      let ?K = "\<lambda>r. event r = e \<and> user r = Some u"
      show "length (user_permissions e u (permissions s')) \<le> 1"
      proof (cases "\<exists>p' \<in> set perms'. ?K p'")
        case True
        then obtain p' where "p' \<in> set perms'" "event p' = e" "user p' = Some u" by blast
        then show ?thesis by (rule touched)
      next
        case False
        then have none: "\<forall>p \<in> set perms'. \<not> ?K p" by blast
        from invite_loop_props [OF i ok1 keys1, of ?K] none
        have l2: "length (filter ?K (permissions s2)) \<le> length (filter ?K (permissions s1))"
          by blast
        from delete_loop_props [OF d ok, of ?K]
        have l1: "length (filter ?K (permissions s1)) \<le> length (filter ?K (permissions s))"
          by blast
        have l3: "length (filter ?K (permissions s')) \<le> length (filter ?K (permissions s2))"
          unfolding Q by (rule length_filter_filter_le)
        from inv have "length (filter ?K (permissions s)) \<le> 1"
          unfolding one_per_user_iff user_permissions_def by blast
        with l1 l2 l3 show ?thesis
          unfolding user_permissions_def by linarith
      qed
    qed
  qed
  from A B show ?thesis by blast
qed

lemma dedup_loop_exact:
  "dedup_loop ps tbl =
     filter (\<lambda>r. \<forall>p \<in> set ps. user p = None
                    \<or> \<not> (event r = event p \<and> user r = user p \<and> pk r \<noteq> pk p)) tbl"
proof (induction ps arbitrary: tbl)
  case Nil
  show ?case by simp
next
  case (Cons q ps)
  have "dedup_loop (q # ps) tbl = dedup_loop ps (dedup_step q tbl)" by simp
  also have "\<dots> = filter (\<lambda>r. \<forall>p \<in> set ps. user p = None
                    \<or> \<not> (event r = event p \<and> user r = user p \<and> pk r \<noteq> pk p))
                 (dedup_step q tbl)"
    by (rule Cons.IH)
  also have "\<dots> = filter (\<lambda>r. \<forall>p \<in> set (q # ps). user p = None
                    \<or> \<not> (event r = event p \<and> user r = user p \<and> pk r \<noteq> pk p)) tbl"
    unfolding dedup_step_filter [of q tbl] filter_filter
    by (rule filter_cong [OF refl]) auto
  finally show ?case .
qed

text \<open>
  C8, as the code has it.  A POST to the team settings that returns is considered, on
  a table with primary keys and for a formset whose instances carry keys of that
  table's sequence.  When it got to saving (the formset is valid and the team check
  passed), the table afterwards is the table as the saves left it without, for every
  saved permission that has a user attached, the other rows of that event and user,
  and nothing else is deleted there.  So every row that remains for the event and the
  user of a saved permission carries the key of that permission, and there is at most
  one.  The rows of a pair that no saved permission has are not touched: when the table
  had at most one row for every event and user before the request, it has so after it.
\<close>

theorem EventTeam_post_deletes_other_rows:
  assumes ok: "table_ok s" and keys: "keys_ok (next_pk s) (formset_save fs)"
    and post: "EventTeam_post en rq fs s = Inr (resp, s')"
  shows "(is_valid fs \<and> has_remaining_team fs \<longrightarrow>
           (\<exists>s1 saved mails s2.
               delete_loop (deleted_objects fs) s = Inr s1
             \<and> invite_loop en rq (formset_save fs) [] s1 = Inr (saved, mails, s2)
             \<and> map (\<lambda>p. (event p, user p)) saved
                 = map (\<lambda>p. (event p, user (saved_form (users s) p))) (formset_save fs)
             \<and> permissions s' =
                 filter (\<lambda>r. \<forall>p \<in> set saved. user p = None
                            \<or> \<not> (event r = event p \<and> user r = user p \<and> pk r \<noteq> pk p))
                   (permissions s2)
             \<and> (\<forall>p \<in> set saved. \<forall>u. user p = Some u \<longrightarrow>
                   (\<forall>r \<in> set (permissions s'). event r = event p \<and> user r = Some u
                        \<longrightarrow> pk r = pk p))))
       \<and> (is_valid fs \<and> has_remaining_team fs \<longrightarrow>
           (\<forall>p \<in> set (formset_save fs). \<forall>u. user (saved_form (users s) p) = Some u \<longrightarrow>
              length (user_permissions (event p) u (permissions s')) \<le> 1))
       \<and> (one_per_user (permissions s) \<longrightarrow> one_per_user (permissions s'))"
proof -
  note old = EventTeam_post_keeps_one_per_user [OF ok keys post]
  have A: "is_valid fs \<and> has_remaining_team fs \<longrightarrow>
           (\<exists>s1 saved mails s2.
               delete_loop (deleted_objects fs) s = Inr s1
             \<and> invite_loop en rq (formset_save fs) [] s1 = Inr (saved, mails, s2)
             \<and> map (\<lambda>p. (event p, user p)) saved
                 = map (\<lambda>p. (event p, user (saved_form (users s) p))) (formset_save fs)
             \<and> permissions s' =
                 filter (\<lambda>r. \<forall>p \<in> set saved. user p = None
                            \<or> \<not> (event r = event p \<and> user r = user p \<and> pk r \<noteq> pk p))
                   (permissions s2)
             \<and> (\<forall>p \<in> set saved. \<forall>u. user p = Some u \<longrightarrow>
                   (\<forall>r \<in> set (permissions s'). event r = event p \<and> user r = Some u
                        \<longrightarrow> pk r = pk p)))"
  proof
    assume "is_valid fs \<and> has_remaining_team fs"
    then have v: "is_valid fs" and h: "has_remaining_team fs" by simp_all
    from EventTeam_post_saved [OF post v h] obtain s1 saved mails s2 where
      d: "delete_loop (deleted_objects fs) s = Inr s1"
      and i: "invite_loop en rq (formset_save fs) [] s1 = Inr (saved, mails, s2)"
      and fin: "permissions s' = dedup_loop saved (permissions s2)"
      by blast
    note dp = delete_loop_props [OF d ok, of "\<lambda>_. True"]
    from dp have ok1: "table_ok s1" and n1: "next_pk s1 = next_pk s" and u1: "users s1 = users s"
      by blast+
    from keys n1 have keys1: "keys_ok (next_pk s1) (formset_save fs)" by simp
    from invite_loop_props [OF i ok1 keys1, of "\<lambda>_. True"] u1
    have km: "map (\<lambda>p. (event p, user p)) saved
        = map (\<lambda>p. (event p, user (saved_form (users s) p))) (formset_save fs)"
      by simp
    from fin have ex: "permissions s' =
        filter (\<lambda>r. \<forall>p \<in> set saved. user p = None
                   \<or> \<not> (event r = event p \<and> user r = user p \<and> pk r \<noteq> pk p))
          (permissions s2)"
      by (simp only: dedup_loop_exact)
    have only: "\<forall>p \<in> set saved. \<forall>u. user p = Some u \<longrightarrow>
        (\<forall>r \<in> set (permissions s'). event r = event p \<and> user r = Some u \<longrightarrow> pk r = pk p)"
    proof (intro ballI allI impI)
      fix p u r
      assume p: "p \<in> set saved" and u: "user p = Some u"
        and r: "r \<in> set (permissions s')" and K: "event r = event p \<and> user r = Some u"
      from r fin have "r \<in> set (dedup_loop saved (permissions s2))" by simp
      from dedup_loop_only [OF this p u] K show "pk r = pk p" by simp
    qed
    from d i km ex only show "\<exists>s1 saved mails s2.
               delete_loop (deleted_objects fs) s = Inr s1
             \<and> invite_loop en rq (formset_save fs) [] s1 = Inr (saved, mails, s2)
             \<and> map (\<lambda>p. (event p, user p)) saved
                 = map (\<lambda>p. (event p, user (saved_form (users s) p))) (formset_save fs)
             \<and> permissions s' =
                 filter (\<lambda>r. \<forall>p \<in> set saved. user p = None
                            \<or> \<not> (event r = event p \<and> user r = user p \<and> pk r \<noteq> pk p))
                   (permissions s2)
             \<and> (\<forall>p \<in> set saved. \<forall>u. user p = Some u \<longrightarrow>
                   (\<forall>r \<in> set (permissions s'). event r = event p \<and> user r = Some u
                        \<longrightarrow> pk r = pk p))"
      by blast
  qed
  from old have B: "is_valid fs \<and> has_remaining_team fs \<longrightarrow>
           (\<forall>p \<in> set (formset_save fs). \<forall>u. user (saved_form (users s) p) = Some u \<longrightarrow>
              length (user_permissions (event p) u (permissions s')) \<le> 1)"
    by (rule conjunct1)
  from old have C: "one_per_user (permissions s) \<longrightarrow> one_per_user (permissions s')"
    by (rule conjunct2)
  from A B C show ?thesis by (intro conjI)
qed

text \<open>
  The witness: the user with key 2 is reviewer of event 1 and is invited again, as
  organiser, under his e-mail address.  The new row is bound to him and his old row is
  deleted; the row of the other user stays.
\<close>

theorem EventTeam_post_deletes_other_rows_witness:
  "table_ok (invited_state [alice_perm, bob_perm])
   \<and> keys_ok (next_pk (invited_state [alice_perm, bob_perm])) (formset_save invite_bob_formset)
   \<and> is_valid invite_bob_formset \<and> has_remaining_team invite_bob_formset
   \<and> one_per_user (permissions (invited_state [alice_perm, bob_perm]))
   \<and> invitation ''bob@review.org'' True \<in> set (formset_save invite_bob_formset)
   \<and> user (saved_form (users (invited_state [alice_perm, bob_perm]))
              (invitation ''bob@review.org'' True)) = Some 2
   \<and> (\<exists>s'. EventTeam_post mail_ok team_request invite_bob_formset
              (invited_state [alice_perm, bob_perm]) = Inr (Redirect (Team_settings 1), s')
          \<and> permissions s' =
              [alice_perm,
               (invitation ''bob@review.org'' True)
                 \<lparr>pk := Some 4, user := Some 2, invitation_email := None,
                  invitation_token := None\<rparr>]
          \<and> length (user_permissions 1 2 (permissions s')) \<le> 1
          \<and> one_per_user (permissions s'))"
proof -
  let ?s = "invited_state [alice_perm, bob_perm]"
  have ok: "table_ok ?s"
    and keys: "keys_ok (next_pk ?s) (formset_save invite_bob_formset)"
    and v: "is_valid invite_bob_formset" and h: "has_remaining_team invite_bob_formset"
    and inv: "one_per_user (permissions ?s)"
    and m: "invitation ''bob@review.org'' True \<in> set (formset_save invite_bob_formset)"
    and u: "user (saved_form (users ?s) (invitation ''bob@review.org'' True)) = Some 2"
    by code_simp+
  have "case EventTeam_post mail_ok team_request invite_bob_formset ?s of
          Inl _ \<Rightarrow> False
        | Inr (r, s') \<Rightarrow> r = Redirect (Team_settings 1)
            \<and> permissions s' =
              [alice_perm,
               (invitation ''bob@review.org'' True)
                 \<lparr>pk := Some 4, user := Some 2, invitation_email := None,
                  invitation_token := None\<rparr>]"
    by code_simp
  then obtain s' where post: "EventTeam_post mail_ok team_request invite_bob_formset ?s
      = Inr (Redirect (Team_settings 1), s')"
    and tbl: "permissions s' =
              [alice_perm,
               (invitation ''bob@review.org'' True)
                 \<lparr>pk := Some 4, user := Some 2, invitation_email := None,
                  invitation_token := None\<rparr>]"
    by (auto split: sum.splits)
  have e: "event (invitation ''bob@review.org'' True) = 1"
    by (simp add: invitation_def)
  note t = EventTeam_post_deletes_other_rows [OF ok keys post]
  from t v h have "\<forall>p \<in> set (formset_save invite_bob_formset).
      \<forall>u. user (saved_form (users ?s) p) = Some u \<longrightarrow>
        length (user_permissions (event p) u (permissions s')) \<le> 1"
    by blast
  with m u e have l: "length (user_permissions 1 2 (permissions s')) \<le> 1"
    by fastforce
  from t inv have o: "one_per_user (permissions s')" by blast
  from ok keys v h inv m u post tbl l o show ?thesis by blast
qed

text \<open>
  C8 as it is worded fails where the table holds two rows of one user for one event
  that the request does not touch: the handler returns and both rows are still there.
\<close>

theorem EventTeam_post_leaves_duplicates:
  "table_ok dup_state
   \<and> keys_ok (next_pk dup_state) (formset_save invite_formset)
   \<and> is_valid invite_formset \<and> has_remaining_team invite_formset
   \<and> EventTeam_post mail_ok team_request invite_formset dup_state =
       Inr (Redirect (Team_settings 1),
            dup_state\<lparr>permissions :=
                        [alice_perm, bob_perm, bob_second,
                         (invitation ''other@user.org'' True)\<lparr>pk := Some 5\<rparr>],
                      next_pk := 6,
                      action_log := [(''pretalx.invite.orga.send'', Some 1)],
                      messages := [(SUCCESS, invited_text (Some ''other@user.org''))],
                      sent := [Invite_mail (invitation ''other@user.org'' True)]\<rparr>)
   \<and> user_permissions 1 2
         [alice_perm, bob_perm, bob_second, (invitation ''other@user.org'' True)\<lparr>pk := Some 5\<rparr>]
       = [bob_perm, bob_second]
   \<and> bob_perm \<noteq> bob_second"
  by (intro conjI; code_simp)

subsection \<open>Team settings: the last organiser, and the text of the invitation message\<close>

text \<open>
  C1 at the input that breaks it.  Event 1 has one permission, the organiser with user
  key 1.  The POST leaves that row as it is and adds two invitations as organiser,
  both to the e-mail address of that user.  The formset is valid and the team check
  passes (two new organisers).  Both new rows are bound to user 1; in the loop of
  lines 230 to 235 the first deletes the old row and the second new row, the second
  then deletes the first.  The handler returns its redirect without an error message
  and event 1 is left with no permission at all.
\<close>

theorem EventTeam_post_loses_last_organiser:
  "is_valid double_invite_formset \<and> has_remaining_team double_invite_formset
   \<and> (\<exists>r \<in> set (permissions team_state). is_orga r \<and> event r = req_event team_request)
   \<and> (\<exists>s'. EventTeam_post mail_ok team_request double_invite_formset team_state
            = Inr (Redirect (Team_settings 1), s')
          \<and> permissions s' = []
          \<and> \<not> (\<exists>m. (ERROR, m) \<in> set (messages s')))"
proof -
  have a: "is_valid double_invite_formset" "has_remaining_team double_invite_formset"
    "\<exists>r \<in> set (permissions team_state). is_orga r \<and> event r = req_event team_request"
    by code_simp+
  have "case EventTeam_post mail_ok team_request double_invite_formset team_state of
          Inl _ \<Rightarrow> False
        | Inr (r, s') \<Rightarrow> r = Redirect (Team_settings 1) \<and> permissions s' = []
            \<and> list_all (\<lambda>(l, m). l \<noteq> ERROR) (messages s')"
    by code_simp
  then obtain s' where "EventTeam_post mail_ok team_request double_invite_formset team_state
            = Inr (Redirect (Team_settings 1), s')" "permissions s' = []"
      "list_all (\<lambda>(l, m). l \<noteq> ERROR) (messages s')"
    by (auto split: sum.splits)
  moreover from this(3) have "\<not> (\<exists>m. (ERROR, m) \<in> set (messages s'))"
    by (auto simp: list_all_iff)
  ultimately show ?thesis using a by blast
qed

text \<open>
  C5 at the input that breaks it.  A new permission is added with the invitation
  address of a registered user.  The permission is bound to the user and its address
  is cleared in line 219; the success message is made from the cleared field in line
  225 and names \<^verbatim>\<open>None\<close>, not the address that was invited.  The rest is as the
  claim says: the mail is made after the binding, queued and sent, the action logged.
\<close>

theorem EventTeam_post_message_names_None:
  "truthy (invitation_email (invitation ''bob@review.org'' True))
   \<and> find_user (users team_state2) ''bob@review.org'' = Some bob
   \<and> (\<exists>s'. EventTeam_post mail_ok team_request invite_bob_formset team_state2
            = Inr (Redirect (Team_settings 1), s')
          \<and> messages s' =
              [(SUCCESS, Text ''<None> has been invited to your team - more team members help distribute the workload, so ... yay!'')]
          \<and> sent s' = [Invite_mail ((invitation ''bob@review.org'' True)
                \<lparr>user := Some 2, invitation_email := None, invitation_token := None\<rparr>)]
          \<and> action_log s' = [(''pretalx.invite.orga.send'', Some 1)])"
proof -
  have a: "truthy (invitation_email (invitation ''bob@review.org'' True))"
    "find_user (users team_state2) ''bob@review.org'' = Some bob"
    by code_simp+
  have "case EventTeam_post mail_ok team_request invite_bob_formset team_state2 of
          Inl _ \<Rightarrow> False
        | Inr (r, s') \<Rightarrow> r = Redirect (Team_settings 1)
            \<and> messages s' =
              [(SUCCESS, Text ''<None> has been invited to your team - more team members help distribute the workload, so ... yay!'')]
            \<and> sent s' = [Invite_mail ((invitation ''bob@review.org'' True)
                \<lparr>user := Some 2, invitation_email := None, invitation_token := None\<rparr>)]
            \<and> action_log s' = [(''pretalx.invite.orga.send'', Some 1)]"
    by code_simp
  then have "\<exists>s'. EventTeam_post mail_ok team_request invite_bob_formset team_state2
            = Inr (Redirect (Team_settings 1), s')
          \<and> messages s' =
              [(SUCCESS, Text ''<None> has been invited to your team - more team members help distribute the workload, so ... yay!'')]
          \<and> sent s' = [Invite_mail ((invitation ''bob@review.org'' True)
                \<lparr>user := Some 2, invitation_email := None, invitation_token := None\<rparr>)]
          \<and> action_log s' = [(''pretalx.invite.orga.send'', Some 1)]"
    by (auto split: sum.splits)
  with a show ?thesis by blast
qed

end
